theory Spec2Isabelle
  imports Complex_Main "HOL-Library.Monad_Syntax" "HOL-Library.Multiset"
begin

section \<open>C conventions\<close>

text \<open>
  The program is C (\<^verbatim>\<open>lockfreestocks.c\<close>). An \<^verbatim>\<open>int\<close> is a 32-bit signed integer; it is
  modelled as an \<open>int\<close> together with the range check that C leaves to the programmer.
  A function of the program that may fail to return normally has an \<open>option\<close> result in the
  model: \<open>Some\<close> is a normal return, \<open>None\<close> stands for a run without a result, which is
  either a loop that never ends or one of the undefined behaviours of C the code can reach
  (signed overflow, a remainder by zero, an array access outside the array, a cast of a
  \<^verbatim>\<open>double\<close> that does not fit an \<^verbatim>\<open>int\<close>).

  A \<^verbatim>\<open>double\<close> price is modelled as a real number. The code never computes with prices, it
  only compares them and casts them to \<^verbatim>\<open>int\<close>; NaN and the infinities have no counterpart
  in the model.

  The functions of the program are modelled as sequential: one call runs to its end before
  the next one starts, and the atomic loads, stores and fences of the source are plain
  reads and writes. Two threads meet in two places: \<open>matchOrders_interleaved\<close> is a schedule
  in which whole calls of a producer run between the two parts of a pass, and the relation
  \<open>step\<close> interleaves the single accesses that the threads in \<^verbatim>\<open>enqueue\<close> and \<^verbatim>\<open>dequeue\<close> make
  to one queue. Both take the accesses in one global order, which is the sequentially
  consistent reading of the atomics.
\<close>

definition INT_MAX :: int where
  "INT_MAX = 2147483647"

definition INT_MIN :: int where
  "INT_MIN = - 2147483648"

definition in_int :: "int \<Rightarrow> int option" where
  \<comment> \<open>the result of an \<^verbatim>\<open>int\<close> operation: undefined when it does not fit\<close>
  "in_int x = (if INT_MIN \<le> x \<and> x \<le> INT_MAX then Some x else None)"

definition c_rem :: "int \<Rightarrow> int \<Rightarrow> int option" where
  \<comment> \<open>C's \<^verbatim>\<open>a % b\<close>: the remainder of the division that truncates towards zero\<close>
  "c_rem a b = (if b = 0 \<or> (a = INT_MIN \<and> b = - 1) then None
                else Some (sgn a * (\<bar>a\<bar> mod \<bar>b\<bar>)))"

definition to_int :: "real \<Rightarrow> int option" where
  \<comment> \<open>C's cast \<^verbatim>\<open>(int)x\<close> of a \<^verbatim>\<open>double\<close>: the fraction is dropped\<close>
  "to_int x = in_int (if 0 \<le> x then \<lfloor>x\<rfloor> else \<lceil>x\<rceil>)"

definition NUM_TICKERS :: int where
  "NUM_TICKERS = 1024"

definition QUEUE_CAPACITY :: int where
  "QUEUE_CAPACITY = 128"

section \<open>Orders and the queue\<close>

record Order =
  type :: char
  ticker :: int
  quantity :: int
  price :: real

text \<open>
  \<^verbatim>\<open>MinimalQueue\<close>: the array \<^verbatim>\<open>orders[QUEUE_CAPACITY]\<close> is a function from the index to the
  slot, valid on \<open>0 \<le> i < QUEUE_CAPACITY\<close>; every access checks the index.
\<close>

record MinimalQueue =
  orders :: "int \<Rightarrow> Order"
  head :: int
  tail :: int
  tailReservation :: int
  capacity :: int

definition initQueue :: "MinimalQueue \<Rightarrow> int \<Rightarrow> MinimalQueue" where
  "initQueue q cap = q\<lparr>capacity := cap, head := 0, tail := 0, tailReservation := 0\<rparr>"

definition load_order :: "MinimalQueue \<Rightarrow> int \<Rightarrow> Order option" where
  "load_order q i = (if 0 \<le> i \<and> i < QUEUE_CAPACITY then Some (orders q i) else None)"

definition store_order :: "MinimalQueue \<Rightarrow> int \<Rightarrow> Order \<Rightarrow> MinimalQueue option" where
  "store_order q i ord =
     (if 0 \<le> i \<and> i < QUEUE_CAPACITY then Some (q\<lparr>orders := (orders q)(i := ord)\<rparr>) else None)"

definition compare_exchange :: "MinimalQueue \<Rightarrow> int \<Rightarrow> int \<Rightarrow> MinimalQueue \<times> bool" where
  \<comment> \<open>\<^verbatim>\<open>atomic_compare_exchange_weak_explicit\<close> on \<^verbatim>\<open>tailReservation\<close>, without the spurious
      failure the weak form allows (a spurious failure only repeats the loop)\<close>
  "compare_exchange q expected desired =
     (if tailReservation q = expected then (q\<lparr>tailReservation := desired\<rparr>, True)
      else (q, False))"

text \<open>
  The reservation loop of \<^verbatim>\<open>enqueue\<close> (lines 48-61). It returns the queue and the reserved
  position, or no position when the queue is full.
\<close>

partial_function (option) reserve :: "MinimalQueue \<Rightarrow> (MinimalQueue \<times> int option) option" where
  "reserve q = do {
     let pos = tailReservation q;
     let hd = head q;
     d \<leftarrow> in_int (pos - hd);
     if d \<ge> capacity q then Some (q, None)
     else do {
       pos1 \<leftarrow> in_int (pos + 1);
       let (q', ok) = compare_exchange q pos pos1;
       if ok then Some (q', Some pos) else reserve q'
     }
   }"

text \<open>
  The publication wait of \<^verbatim>\<open>enqueue\<close> (lines 69-70): it spins until \<^verbatim>\<open>tail\<close> is the
  reserved position. No other thread runs in the sequential model, so the loop either
  ends at once or never.
\<close>

partial_function (option) await_turn :: "MinimalQueue \<Rightarrow> int \<Rightarrow> unit option" where
  "await_turn q pos = (if tail q \<noteq> pos then await_turn q pos else Some ())"

definition enqueue :: "MinimalQueue \<Rightarrow> Order \<Rightarrow> (MinimalQueue \<times> bool) option" where
  "enqueue q ord = do {
     (q1, r) \<leftarrow> reserve q;
     case r of
       None \<Rightarrow> Some (q1, False)
     | Some pos \<Rightarrow> do {
         i \<leftarrow> c_rem pos (capacity q1);
         q2 \<leftarrow> store_order q1 i ord;
         _ \<leftarrow> await_turn q2 pos;
         pos1 \<leftarrow> in_int (pos + 1);
         Some (q2\<lparr>tail := pos1\<rparr>, True)
       }
   }"

text \<open>
  \<^verbatim>\<open>dequeue\<close> returns \<^verbatim>\<open>false\<close> on an empty queue and otherwise writes the order through
  its pointer argument: the model returns the order, or \<open>None\<close> in its place.
\<close>

definition dequeue :: "MinimalQueue \<Rightarrow> (MinimalQueue \<times> Order option) option" where
  "dequeue q =
     (let hd = head q; tl = tail q in
      if hd = tl then Some (q, None)
      else do {
        i \<leftarrow> c_rem hd (capacity q);
        ord \<leftarrow> load_order q i;
        hd1 \<leftarrow> in_int (hd + 1);
        Some (q\<lparr>head := hd1\<rparr>, Some ord)
      })"

section \<open>The order book\<close>

text \<open>
  The global arrays \<^verbatim>\<open>buyQueues[NUM_TICKERS]\<close> and \<^verbatim>\<open>sellQueues[NUM_TICKERS]\<close>, again as
  functions from the index, valid on \<open>0 \<le> i < NUM_TICKERS\<close>.
\<close>

record OrderBook =
  buyQueues :: "int \<Rightarrow> MinimalQueue"
  sellQueues :: "int \<Rightarrow> MinimalQueue"

definition zero_Order :: Order where
  "zero_Order = \<lparr>type = CHR 0x00, ticker = 0, quantity = 0, price = 0\<rparr>"

definition zero_Queue :: MinimalQueue where
  "zero_Queue = \<lparr>orders = (\<lambda>_. zero_Order), head = 0, tail = 0, tailReservation = 0, capacity = 0\<rparr>"

definition static_book :: OrderBook where
  \<comment> \<open>the globals at program start: static storage is zero-initialised\<close>
  "static_book = \<lparr>buyQueues = (\<lambda>_. zero_Queue), sellQueues = (\<lambda>_. zero_Queue)\<rparr>"

function initOrderBook_loop :: "int \<Rightarrow> OrderBook \<Rightarrow> OrderBook" where
  "initOrderBook_loop i book =
     (if i < NUM_TICKERS then
        initOrderBook_loop (i + 1)
          (book\<lparr>buyQueues := (buyQueues book)(i := initQueue (buyQueues book i) QUEUE_CAPACITY),
                sellQueues := (sellQueues book)(i := initQueue (sellQueues book i) QUEUE_CAPACITY)\<rparr>)
      else book)"
  by pat_completeness auto
termination
  by (relation "measure (\<lambda>(i, book). nat (NUM_TICKERS - i))") auto

declare initOrderBook_loop.simps [simp del]

definition initOrderBook :: "OrderBook \<Rightarrow> OrderBook" where
  "initOrderBook book = initOrderBook_loop 0 book"

text \<open>What the program prints: one constructor for each \<^verbatim>\<open>printf\<close> of the core.\<close>

datatype message =
    Queue_Full int  \<comment> \<open>\<^verbatim>\<open>Queue for ticker %d is full. Order dropped.\<close>\<close>
  | Order_Added char int int real  \<comment> \<open>\<^verbatim>\<open>Order added: %c Ticker: %d Qty: %d Price: %.2f\<close>\<close>
  | Matched int int real  \<comment> \<open>\<^verbatim>\<open>Matched Ticker %d: %d shares at $%.2f\<close>\<close>

definition addOrder :: "OrderBook \<Rightarrow> char \<Rightarrow> int \<Rightarrow> int \<Rightarrow> real \<Rightarrow> (OrderBook \<times> message) option" where
  "addOrder book orderType tkr qty prc =
     (let ord = \<lparr>type = orderType, ticker = tkr, quantity = qty, price = prc\<rparr>;
          report = (\<lambda>success. if \<not> success then Queue_Full tkr
                               else Order_Added orderType tkr qty prc)
      in
      if orderType = CHR ''B'' then
        (if 0 \<le> tkr \<and> tkr < NUM_TICKERS then do {
           (q, success) \<leftarrow> enqueue (buyQueues book tkr) ord;
           Some (book\<lparr>buyQueues := (buyQueues book)(tkr := q)\<rparr>, report success)
         } else None)
      else if orderType = CHR ''S'' then
        (if 0 \<le> tkr \<and> tkr < NUM_TICKERS then do {
           (q, success) \<leftarrow> enqueue (sellQueues book tkr) ord;
           Some (book\<lparr>sellQueues := (sellQueues book)(tkr := q)\<rparr>, report success)
         } else None)
      else Some (book, report False))"

section \<open>Matching\<close>

text \<open>
  The drain loops of \<^verbatim>\<open>matchOrders\<close> (lines 133-139). The local arrays hold
  \<^verbatim>\<open>QUEUE_CAPACITY\<close> orders; one more dequeued order would be written behind the array.
\<close>

function drain :: "MinimalQueue \<Rightarrow> Order list \<Rightarrow> (MinimalQueue \<times> Order list) option" where
  "drain q acc =
     (case dequeue q of
        None \<Rightarrow> None
      | Some (q', None) \<Rightarrow> Some (q', acc)
      | Some (q', Some ord) \<Rightarrow>
          if QUEUE_CAPACITY \<le> int (length acc) then None else drain q' (acc @ [ord]))"
  by pat_completeness auto
termination
  by (relation "measure (\<lambda>(q, acc). nat (QUEUE_CAPACITY - int (length acc)))") auto

declare drain.simps [simp del]

text \<open>The loops of lines 143-148: every drained order goes back, the result is ignored.\<close>

fun enqueue_all :: "MinimalQueue \<Rightarrow> Order list \<Rightarrow> MinimalQueue option" where
  "enqueue_all q [] = Some q"
| "enqueue_all q (ord # rest) = do {
     (q', success) \<leftarrow> enqueue q ord;
     enqueue_all q' rest
   }"

text \<open>The loops of lines 207-216: what is left of an order goes back, the result is ignored.\<close>

fun enqueue_remaining :: "MinimalQueue \<Rightarrow> Order list \<Rightarrow> MinimalQueue option" where
  "enqueue_remaining q [] = Some q"
| "enqueue_remaining q (ord # rest) =
     (if quantity ord > 0 then do {
        (q', success) \<leftarrow> enqueue q ord;
        enqueue_remaining q' rest
      } else enqueue_remaining q rest)"

text \<open>
  The bucket sorts (lines 156-163 and 168-174): the outer loop runs over the prices, the
  inner loop appends the orders of that price in their order.
\<close>

definition in_bucket :: "int \<Rightarrow> Order \<Rightarrow> bool" where
  "in_bucket p ord \<longleftrightarrow> to_int (price ord) = Some p \<and> quantity ord > 0"

function sortedSell_loop :: "int \<Rightarrow> Order list \<Rightarrow> Order list \<Rightarrow> Order list" where
  "sortedSell_loop p sellOrders sortedSell =
     (if p \<le> 1000 then
        sortedSell_loop (p + 1) sellOrders (sortedSell @ filter (in_bucket p) sellOrders)
      else sortedSell)"
  by pat_completeness auto
termination
  by (relation "measure (\<lambda>(p, sellOrders, sortedSell). nat (1001 - p))") auto

declare sortedSell_loop.simps [simp del]

function sortedBuy_loop :: "int \<Rightarrow> Order list \<Rightarrow> Order list \<Rightarrow> Order list" where
  "sortedBuy_loop p buyOrders sortedBuy =
     (if p \<ge> 10 then
        sortedBuy_loop (p - 1) buyOrders (sortedBuy @ filter (in_bucket p) buyOrders)
      else sortedBuy)"
  by pat_completeness auto
termination
  by (relation "measure (\<lambda>(p, buyOrders, sortedBuy). nat (p - 9))") auto

declare sortedBuy_loop.simps [simp del]

text \<open>
  The two-pointer loop (lines 179-204). It changes the quantities in the two sorted
  arrays and prints a line for each trade. Both quantities are positive when it subtracts
  (the sorts keep positive quantities only), so the subtraction stays in range.
\<close>

function two_pointer ::
  "int \<Rightarrow> nat \<Rightarrow> nat \<Rightarrow> Order list \<Rightarrow> Order list \<Rightarrow> message list
     \<Rightarrow> Order list \<times> Order list \<times> message list" where
  "two_pointer tkr i j sortedBuy sortedSell out =
     (if i < length sortedBuy \<and> j < length sortedSell then
        if price (sortedBuy ! i) \<ge> price (sortedSell ! j) then
          let matchedQty = (if quantity (sortedBuy ! i) < quantity (sortedSell ! j)
                            then quantity (sortedBuy ! i) else quantity (sortedSell ! j));
              out' = out @ [Matched tkr matchedQty (price (sortedSell ! j))];
              sortedBuy' = sortedBuy[i := (sortedBuy ! i)
                             \<lparr>quantity := quantity (sortedBuy ! i) - matchedQty\<rparr>];
              sortedSell' = sortedSell[j := (sortedSell ! j)
                             \<lparr>quantity := quantity (sortedSell ! j) - matchedQty\<rparr>];
              i' = (if quantity (sortedBuy' ! i) = 0 then i + 1 else i);
              j' = (if quantity (sortedSell' ! j) = 0 then j + 1 else j)
          in two_pointer tkr i' j' sortedBuy' sortedSell' out'
        else (sortedBuy, sortedSell, out)
      else (sortedBuy, sortedSell, out))"
  by pat_completeness auto
termination
  by (relation "measure (\<lambda>(tkr, i, j, sortedBuy, sortedSell, out).
        (length sortedBuy - i) + (length sortedSell - j))") (auto simp: Let_def)

declare two_pointer.simps [simp del]

text \<open>
  \<^verbatim>\<open>matchOrders\<close> in two parts: the drain (lines 127-139) and everything after it (lines
  141-216). The two lists between the parts are the contents of the local arrays
  \<^verbatim>\<open>buyOrders\<close> and \<^verbatim>\<open>sellOrders\<close>, which the drain keeps within \<^verbatim>\<open>QUEUE_CAPACITY\<close> orders. The
  casts of the sorts are checked before the sorts, which cast every price.
\<close>

definition matchOrders_drain ::
  "OrderBook \<Rightarrow> int \<Rightarrow> (OrderBook \<times> Order list \<times> Order list) option" where
  "matchOrders_drain book tkr =
     (if 0 \<le> tkr \<and> tkr < NUM_TICKERS then do {
        (bq, buyOrders) \<leftarrow> drain (buyQueues book tkr) [];
        (sq, sellOrders) \<leftarrow> drain (sellQueues book tkr) [];
        Some (book\<lparr>buyQueues := (buyQueues book)(tkr := bq),
                   sellQueues := (sellQueues book)(tkr := sq)\<rparr>, buyOrders, sellOrders)
      } else None)"

definition matchOrders_publish ::
  "OrderBook \<Rightarrow> int \<Rightarrow> Order list \<Rightarrow> Order list \<Rightarrow> (OrderBook \<times> message list) option" where
  "matchOrders_publish book tkr buyOrders sellOrders =
     (if 0 \<le> tkr \<and> tkr < NUM_TICKERS then
        if buyOrders = [] \<or> sellOrders = [] then do {
          bq \<leftarrow> enqueue_all (buyQueues book tkr) buyOrders;
          sq \<leftarrow> enqueue_all (sellQueues book tkr) sellOrders;
          Some (book\<lparr>buyQueues := (buyQueues book)(tkr := bq),
                     sellQueues := (sellQueues book)(tkr := sq)\<rparr>, [])
        }
        else if list_all (\<lambda>ord. to_int (price ord) \<noteq> None) (sellOrders @ buyOrders) then
          let sortedSell = sortedSell_loop 10 sellOrders [];
              sortedBuy = sortedBuy_loop 1000 buyOrders [];
              (sortedBuy', sortedSell', out) = two_pointer tkr 0 0 sortedBuy sortedSell []
          in do {
            bq \<leftarrow> enqueue_remaining (buyQueues book tkr) sortedBuy';
            sq \<leftarrow> enqueue_remaining (sellQueues book tkr) sortedSell';
            Some (book\<lparr>buyQueues := (buyQueues book)(tkr := bq),
                       sellQueues := (sellQueues book)(tkr := sq)\<rparr>, out)
          }
        else None
      else None)"

definition matchOrders :: "OrderBook \<Rightarrow> int \<Rightarrow> (OrderBook \<times> message list) option" where
  "matchOrders book tkr = do {
     (book', buyOrders, sellOrders) \<leftarrow> matchOrders_drain book tkr;
     matchOrders_publish book' tkr buyOrders sellOrders
   }"

section \<open>Drivers: sequences of calls\<close>

text \<open>
  The properties below speak about sequences of calls. A producer that submits a list of orders,
  one \<^verbatim>\<open>addOrder\<close> after the other, as \<^verbatim>\<open>producerThread\<close> does:
\<close>

fun addOrders ::
  "OrderBook \<Rightarrow> (char \<times> int \<times> int \<times> real) list \<Rightarrow> (OrderBook \<times> message list) option" where
  "addOrders book [] = Some (book, [])"
| "addOrders book ((orderType, tkr, qty, prc) # calls) = do {
     (book1, m) \<leftarrow> addOrder book orderType tkr qty prc;
     (book2, ms) \<leftarrow> addOrders book1 calls;
     Some (book2, m # ms)
   }"

text \<open>A sequence of \<^verbatim>\<open>enqueue\<close> calls on one queue, with the result of each call.\<close>

fun enqueue_seq :: "MinimalQueue \<Rightarrow> Order list \<Rightarrow> (MinimalQueue \<times> bool list) option" where
  "enqueue_seq q [] = Some (q, [])"
| "enqueue_seq q (ord # os) = do {
     (q1, success) \<leftarrow> enqueue q ord;
     (q2, rs) \<leftarrow> enqueue_seq q1 os;
     Some (q2, success # rs)
   }"

text \<open>
  A sequence of \<^verbatim>\<open>enqueue\<close> and \<^verbatim>\<open>dequeue\<close> calls on one queue. It returns the orders whose
  \<^verbatim>\<open>enqueue\<close> returned \<^verbatim>\<open>true\<close> and the orders that \<^verbatim>\<open>dequeue\<close> returned, both in the order of
  the calls.
\<close>

datatype operation = Enqueue Order | Dequeue

fun run :: "MinimalQueue \<Rightarrow> operation list \<Rightarrow> (MinimalQueue \<times> Order list \<times> Order list) option" where
  "run q [] = Some (q, [], [])"
| "run q (Enqueue ord # ops) = do {
     (q1, success) \<leftarrow> enqueue q ord;
     (q2, accepted, dequeued) \<leftarrow> run q1 ops;
     Some (q2, (if success then ord # accepted else accepted), dequeued)
   }"
| "run q (Dequeue # ops) = do {
     (q1, r) \<leftarrow> dequeue q;
     (q2, accepted, dequeued) \<leftarrow> run q1 ops;
     Some (q2, accepted, (case r of None \<Rightarrow> dequeued | Some ord \<Rightarrow> ord # dequeued))
   }"

text \<open>
  One schedule of the matcher thread against a producer thread: the producer's calls run
  after the matcher has drained the two queues of the ticker and before it enqueues again.
\<close>

definition matchOrders_interleaved ::
  "OrderBook \<Rightarrow> int \<Rightarrow> (char \<times> int \<times> int \<times> real) list
     \<Rightarrow> (OrderBook \<times> message list \<times> message list) option" where
  "matchOrders_interleaved book tkr calls = do {
     (book1, buyOrders, sellOrders) \<leftarrow> matchOrders_drain book tkr;
     (book2, reports) \<leftarrow> addOrders book1 calls;
     (book3, out) \<leftarrow> matchOrders_publish book2 tkr buyOrders sellOrders;
     Some (book3, reports, out)
   }"

section \<open>Threads\<close>

text \<open>
  The producer threads and the matcher thread of \<^verbatim>\<open>main\<close> work on the queues at the same
  time. For one queue, a thread in \<^verbatim>\<open>enqueue\<close> or \<^verbatim>\<open>dequeue\<close> is at one of the program points
  between two accesses of the queue, with the values of its local variables:

    \<^item> a producer is outside \<^verbatim>\<open>enqueue\<close>, at the top of the loop (line 48), after the load of
      \<^verbatim>\<open>tailReservation\<close> into \<^verbatim>\<open>pos\<close> (line 49), after the load of \<^verbatim>\<open>head\<close> (line 50), after
      the exchange that reserved \<^verbatim>\<open>pos\<close> (line 55), after the write of the slot (line 64),
      or after the load of \<^verbatim>\<open>tail\<close> that ended the wait (line 69);
    \<^item> the consumer is outside \<^verbatim>\<open>dequeue\<close>, after the load of \<^verbatim>\<open>head\<close> (line 79), after
      the load of \<^verbatim>\<open>tail\<close> (line 80), or after the read of the slot (line 85).

  A step is one access of the queue by one thread; the accesses of the threads interleave
  in any order. The weak exchange of line 55 may fail although \<^verbatim>\<open>tailReservation\<close> still
  equals \<^verbatim>\<open>pos\<close>; it succeeds only when it does. An access that is undefined in C (a
  counter beyond \<^verbatim>\<open>INT_MAX\<close>, a slot outside the array) is no step. There are any number
  of producers and one consumer, as the matcher thread is the only caller of \<^verbatim>\<open>dequeue\<close>.
\<close>

datatype producer =
    P_Idle
  | P_Start Order
  | P_Loaded_Pos Order int
  | P_Loaded_Head Order int int
  | P_Reserved Order int
  | P_Written Order int
  | P_Turn Order int

datatype consumer =
    C_Idle
  | C_Loaded_Head int
  | C_Loaded_Tail int int
  | C_Read int Order

record system =
  queue :: MinimalQueue
  producers :: "nat \<Rightarrow> producer"
  consumer :: consumer

inductive step :: "system \<Rightarrow> system \<Rightarrow> bool" where
  begin_call:
    "producers s i = P_Idle \<Longrightarrow>
     step s (s\<lparr>producers := (producers s)(i := P_Start ord)\<rparr>)"
| load_pos:
    "producers s i = P_Start ord \<Longrightarrow>
     step s (s\<lparr>producers := (producers s)(i := P_Loaded_Pos ord (tailReservation (queue s)))\<rparr>)"
| load_head:
    "producers s i = P_Loaded_Pos ord pos \<Longrightarrow>
     step s (s\<lparr>producers := (producers s)(i := P_Loaded_Head ord pos (head (queue s)))\<rparr>)"
| queue_full:
    "producers s i = P_Loaded_Head ord pos h \<Longrightarrow> in_int (pos - h) = Some d \<Longrightarrow>
     capacity (queue s) \<le> d \<Longrightarrow>
     step s (s\<lparr>producers := (producers s)(i := P_Idle)\<rparr>)"
| cas_success:
    "producers s i = P_Loaded_Head ord pos h \<Longrightarrow> in_int (pos - h) = Some d \<Longrightarrow>
     d < capacity (queue s) \<Longrightarrow> in_int (pos + 1) = Some pos1 \<Longrightarrow>
     tailReservation (queue s) = pos \<Longrightarrow>
     step s (s\<lparr>queue := (queue s)\<lparr>tailReservation := pos1\<rparr>,
               producers := (producers s)(i := P_Reserved ord pos)\<rparr>)"
| cas_failure:
    "producers s i = P_Loaded_Head ord pos h \<Longrightarrow> in_int (pos - h) = Some d \<Longrightarrow>
     d < capacity (queue s) \<Longrightarrow> in_int (pos + 1) = Some pos1 \<Longrightarrow>
     step s (s\<lparr>producers := (producers s)(i := P_Start ord)\<rparr>)"
| write_slot:
    "producers s i = P_Reserved ord pos \<Longrightarrow> c_rem pos (capacity (queue s)) = Some k \<Longrightarrow>
     store_order (queue s) k ord = Some q' \<Longrightarrow>
     step s (s\<lparr>queue := q', producers := (producers s)(i := P_Written ord pos)\<rparr>)"
| spin_wait:
    "producers s i = P_Written ord pos \<Longrightarrow> tail (queue s) \<noteq> pos \<Longrightarrow> step s s"
| take_turn:
    "producers s i = P_Written ord pos \<Longrightarrow> tail (queue s) = pos \<Longrightarrow>
     step s (s\<lparr>producers := (producers s)(i := P_Turn ord pos)\<rparr>)"
| publish:
    "producers s i = P_Turn ord pos \<Longrightarrow> in_int (pos + 1) = Some pos1 \<Longrightarrow>
     step s (s\<lparr>queue := (queue s)\<lparr>tail := pos1\<rparr>,
               producers := (producers s)(i := P_Idle)\<rparr>)"
| c_load_head:
    "consumer s = C_Idle \<Longrightarrow> step s (s\<lparr>consumer := C_Loaded_Head (head (queue s))\<rparr>)"
| c_load_tail:
    "consumer s = C_Loaded_Head h \<Longrightarrow>
     step s (s\<lparr>consumer := C_Loaded_Tail h (tail (queue s))\<rparr>)"
| c_empty:
    "consumer s = C_Loaded_Tail h t \<Longrightarrow> h = t \<Longrightarrow> step s (s\<lparr>consumer := C_Idle\<rparr>)"
| c_read:
    "consumer s = C_Loaded_Tail h t \<Longrightarrow> h \<noteq> t \<Longrightarrow>
     c_rem h (capacity (queue s)) = Some k \<Longrightarrow> load_order (queue s) k = Some ord \<Longrightarrow>
     step s (s\<lparr>consumer := C_Read h ord\<rparr>)"
| c_store:
    "consumer s = C_Read h ord \<Longrightarrow> in_int (h + 1) = Some h1 \<Longrightarrow>
     step s (s\<lparr>queue := (queue s)\<lparr>head := h1\<rparr>, consumer := C_Idle\<rparr>)"

inductive reachable :: "MinimalQueue \<Rightarrow> system \<Rightarrow> bool" for q0 where
  start: "reachable q0 \<lparr>queue = q0, producers = (\<lambda>i. P_Idle), consumer = C_Idle\<rparr>"
| after: "reachable q0 s \<Longrightarrow> step s s' \<Longrightarrow> reachable q0 s'"

section \<open>Vocabulary of the specification\<close>

text \<open>The invariant of the three counters.\<close>

definition queue_inv :: "MinimalQueue \<Rightarrow> bool" where
  "queue_inv q \<longleftrightarrow>
     head q \<le> tail q \<and> tail q \<le> tailReservation q \<and> tailReservation q \<le> head q + capacity q"

text \<open>
  A queue between two calls of a sequential run: the invariant holds, every reservation
  is published, the counters are those of a queue that started at zero, and the capacity
  fits the array.
\<close>

definition well_formed :: "MinimalQueue \<Rightarrow> bool" where
  "well_formed q \<longleftrightarrow>
     queue_inv q \<and> tail q = tailReservation q \<and> 0 \<le> head q \<and> tailReservation q \<le> INT_MAX \<and>
     0 < capacity q \<and> capacity q \<le> QUEUE_CAPACITY"

text \<open>The counters are far enough from \<^verbatim>\<open>INT_MAX\<close> for one more pass over a full queue.\<close>

definition below_limit :: "MinimalQueue \<Rightarrow> bool" where
  "below_limit q \<longleftrightarrow> tailReservation q + QUEUE_CAPACITY \<le> INT_MAX"

text \<open>The orders a consumer can dequeue, oldest first, and the number of free slots.\<close>

definition pending :: "MinimalQueue \<Rightarrow> Order list" where
  "pending q = map (\<lambda>k. orders q (k mod capacity q)) [head q .. tail q - 1]"

definition free_slots :: "MinimalQueue \<Rightarrow> nat" where
  "free_slots q = nat (capacity q - (tailReservation q - head q))"

text \<open>
  The pending buy orders of a ticker, the queues of the side that an order type names,
  and the order that a call of \<^verbatim>\<open>addOrder\<close> builds from its arguments.
\<close>

definition buy_orders :: "int \<Rightarrow> OrderBook \<Rightarrow> Order list" where
  "buy_orders tkr book = pending (buyQueues book tkr)"

definition queues_of :: "char \<Rightarrow> OrderBook \<Rightarrow> int \<Rightarrow> MinimalQueue" where
  "queues_of orderType book = (if orderType = CHR ''B'' then buyQueues book else sellQueues book)"

definition order_of :: "char \<times> int \<times> int \<times> real \<Rightarrow> Order" where
  "order_of call =
     (case call of (orderType, tkr, qty, prc) \<Rightarrow>
        \<lparr>type = orderType, ticker = tkr, quantity = qty, price = prc\<rparr>)"

text \<open>
  An order the bucket sorts keep: its price cast to \<^verbatim>\<open>int\<close> is between 10 and 1000 and its
  quantity is positive. An order as the specification wants it: a positive quantity and
  an integer price between 10 and 1000.
\<close>

definition matchable :: "Order \<Rightarrow> bool" where
  "matchable ord \<longleftrightarrow>
     (case to_int (price ord) of None \<Rightarrow> False | Some p \<Rightarrow> 10 \<le> p \<and> p \<le> 1000) \<and>
     quantity ord > 0"

definition valid_order :: "Order \<Rightarrow> bool" where
  "valid_order ord \<longleftrightarrow>
     quantity ord > 0 \<and> price ord = of_int \<lfloor>price ord\<rfloor> \<and> 10 \<le> price ord \<and> price ord \<le> 1000"

definition castable :: "Order list \<Rightarrow> bool" where
  "castable os \<longleftrightarrow> list_all (\<lambda>ord. to_int (price ord) \<noteq> None) os"

definition total_quantity :: "Order list \<Rightarrow> int" where
  "total_quantity os = sum_list (map quantity os)"

fun matched_quantity :: "message \<Rightarrow> int" where
  "matched_quantity (Matched tkr n p) = n"
| "matched_quantity (Queue_Full tkr) = 0"
| "matched_quantity (Order_Added c tkr n p) = 0"

definition total_matched :: "message list \<Rightarrow> int" where
  "total_matched out = sum_list (map matched_quantity out)"

definition only_trades :: "int \<Rightarrow> message list \<Rightarrow> bool" where
  "only_trades tkr out \<longleftrightarrow>
     list_all (\<lambda>m. case m of Matched t n p \<Rightarrow> t = tkr \<and> 0 < n | _ \<Rightarrow> False) out"

text \<open>
  What a pass computes from the drained orders: the orders it enqueues again on each
  side and the lines it prints. This is the part of \<^verbatim>\<open>matchOrders_publish\<close> that does not
  touch the queues.
\<close>

definition pass :: "int \<Rightarrow> Order list \<Rightarrow> Order list \<Rightarrow> Order list \<times> Order list \<times> message list" where
  "pass tkr buyOrders sellOrders =
     (if buyOrders = [] \<or> sellOrders = [] then (buyOrders, sellOrders, [])
      else
        let (sortedBuy, sortedSell, out) =
              two_pointer tkr 0 0 (sortedBuy_loop 1000 buyOrders []) (sortedSell_loop 10 sellOrders [])
                []
        in (filter (\<lambda>ord. quantity ord > 0) sortedBuy,
            filter (\<lambda>ord. quantity ord > 0) sortedSell, out))"

text \<open>
  The state of a sorted array during the two-pointer loop: the orders before the pointer
  are filled or partly filled, the orders from the pointer on have a positive quantity.
\<close>

definition settled :: "nat \<Rightarrow> Order list \<Rightarrow> bool" where
  "settled i os \<longleftrightarrow>
     (\<forall>k<length os. if k < i then 0 \<le> quantity (os ! k) else 0 < quantity (os ! k))"

text \<open>The queue and the book after \<^verbatim>\<open>initOrderBook\<close>.\<close>

definition fresh_Queue :: MinimalQueue where
  "fresh_Queue = initQueue zero_Queue QUEUE_CAPACITY"

definition fresh_book :: OrderBook where
  "fresh_book = initOrderBook static_book"

text \<open>
  The invariant of the queue together with its threads. A producer between its reservation
  and its publication holds a position from \<open>tail\<close> up to \<open>tailReservation\<close>, no two producers
  hold the same one, and the producer that has seen its turn holds \<open>tail\<close> itself. The
  \<^verbatim>\<open>head\<close> a producer has loaded is at most the current one; the \<^verbatim>\<open>head\<close> the consumer has
  loaded is the current one and the \<^verbatim>\<open>tail\<close> it has loaded at most the current one.
\<close>

fun held :: "producer \<Rightarrow> int option" where
  "held (P_Reserved ord pos) = Some pos"
| "held (P_Written ord pos) = Some pos"
| "held (P_Turn ord pos) = Some pos"
| "held p = None"

fun producer_inv :: "MinimalQueue \<Rightarrow> producer \<Rightarrow> bool" where
  "producer_inv q (P_Loaded_Head ord pos h) \<longleftrightarrow> h \<le> head q"
| "producer_inv q (P_Reserved ord pos) \<longleftrightarrow> tail q \<le> pos \<and> pos < tailReservation q"
| "producer_inv q (P_Written ord pos) \<longleftrightarrow> tail q \<le> pos \<and> pos < tailReservation q"
| "producer_inv q (P_Turn ord pos) \<longleftrightarrow> tail q = pos \<and> pos < tailReservation q"
| "producer_inv q p \<longleftrightarrow> True"

fun consumer_inv :: "MinimalQueue \<Rightarrow> consumer \<Rightarrow> bool" where
  "consumer_inv q C_Idle \<longleftrightarrow> True"
| "consumer_inv q (C_Loaded_Head h) \<longleftrightarrow> h = head q"
| "consumer_inv q (C_Loaded_Tail h t) \<longleftrightarrow> h = head q \<and> h \<le> t \<and> t \<le> tail q"
| "consumer_inv q (C_Read h ord) \<longleftrightarrow> h = head q \<and> h < tail q"

definition system_inv :: "system \<Rightarrow> bool" where
  "system_inv s \<longleftrightarrow>
     queue_inv (queue s) \<and>
     (\<forall>i. producer_inv (queue s) (producers s i)) \<and>
     (\<forall>i j pos. held (producers s i) = Some pos \<and> held (producers s j) = Some pos \<longrightarrow> i = j) \<and>
     consumer_inv (queue s) (consumer s)"

section \<open>Example states\<close>

text \<open>
  Concrete states for the examples below, all made by calls on the queue and the book
  that \<^verbatim>\<open>initOrderBook\<close> leaves: a queue with one order; a book with crossing orders on
  ticker 7; a book with buy orders only on ticker 3; a book with orders outside the price
  and quantity domain on ticker 5; the books of a pass on ticker 0 during which a
  producer fills the buy queue; and the books of a pass on ticker 3 during which a producer
  leaves one free slot in the buy queue.
\<close>

definition sample_order :: Order where
  "sample_order = \<lparr>type = CHR ''B'', ticker = 0, quantity = 5, price = 20\<rparr>"

definition one_order_Queue :: MinimalQueue where
  "one_order_Queue = fst (the (enqueue fresh_Queue sample_order))"

definition crossing_book :: OrderBook where
  "crossing_book = fst (the (addOrders fresh_book
     [(CHR ''B'', 7, 20, 100), (CHR ''B'', 7, 10, 90),
      (CHR ''S'', 7, 15, 95), (CHR ''S'', 7, 25, 100)]))"

definition sample_ops :: "operation list" where
  "sample_ops =
     [Enqueue sample_order, Dequeue, Dequeue, Enqueue (sample_order\<lparr>quantity := 7\<rparr>),
      Enqueue (sample_order\<lparr>quantity := 9\<rparr>), Dequeue, Enqueue sample_order]"

definition one_sided_book :: OrderBook where
  "one_sided_book = fst (the (addOrders fresh_book
     [(CHR ''B'', 3, 20, 100), (CHR ''B'', 3, 10, 90), (CHR ''S'', 4, 15, 95)]))"

definition mixed_book :: OrderBook where
  "mixed_book = fst (the (addOrders fresh_book
     [(CHR ''B'', 5, 20, 100), (CHR ''B'', 5, 10, 5),
      (CHR ''S'', 5, 15, 95), (CHR ''S'', 5, - 4, 95), (CHR ''S'', 5, 8, 2000)]))"

definition lost_order_book :: OrderBook where
  "lost_order_book = fst (the (addOrder fresh_book (CHR ''B'') 0 1 10))"

definition flood :: "(char \<times> int \<times> int \<times> real) list" where
  "flood = replicate 128 (CHR ''B'', 0, 5, 20)"

definition drained_book :: OrderBook where
  "drained_book = fst (the (matchOrders_drain lost_order_book 0))"

definition flooded_book :: OrderBook where
  "flooded_book = fst (the (addOrders drained_book flood))"

definition rush :: "(char \<times> int \<times> int \<times> real) list" where
  "rush = replicate 127 (CHR ''B'', 3, 5, 20)"

definition drained_one_sided_book :: OrderBook where
  "drained_one_sided_book = fst (the (matchOrders_drain one_sided_book 3))"

definition rushed_book :: OrderBook where
  "rushed_book = fst (the (addOrders drained_one_sided_book rush))"

text \<open>A producer that has reserved position 0 of a fresh queue and not yet published it.\<close>

definition reserved_system :: system where
  "reserved_system =
     \<lparr>queue = fresh_Queue\<lparr>tailReservation := 1\<rparr>,
      producers = (\<lambda>i. P_Idle)(0 := P_Reserved sample_order 0),
      consumer = C_Idle\<rparr>"

section \<open>The loops in closed form\<close>

lemma await_turn_Some: "await_turn q pos = Some u \<Longrightarrow> tail q = pos"
  by (rule await_turn.raw_induct [where P = "\<lambda>q pos u. tail q = pos"]) (auto split: if_splits)

lemma await_turn_eq: "await_turn q pos = (if tail q = pos then Some () else None)"
proof (cases "tail q = pos")
  case True
  then show ?thesis by (subst await_turn.simps) simp
next
  case False
  then have "await_turn q pos = None"
    using await_turn_Some [of q pos] by (cases "await_turn q pos") auto
  with False show ?thesis by simp
qed

lemma reserve_eq:
  "reserve q =
     (case in_int (tailReservation q - head q) of
        None \<Rightarrow> None
      | Some d \<Rightarrow>
          if capacity q \<le> d then Some (q, None)
          else (case in_int (tailReservation q + 1) of
                  None \<Rightarrow> None
                | Some pos1 \<Rightarrow> Some (q\<lparr>tailReservation := pos1\<rparr>, Some (tailReservation q))))"
  by (subst reserve.simps) (simp add: compare_exchange_def Let_def split: option.splits)

lemma in_int_Some [simp]: "INT_MIN \<le> x \<Longrightarrow> x \<le> INT_MAX \<Longrightarrow> in_int x = Some x"
  by (simp add: in_int_def)

lemma c_rem_nonneg: "0 \<le> a \<Longrightarrow> 0 < b \<Longrightarrow> c_rem a b = Some (a mod b)"
  by (cases "a = 0") (simp_all add: c_rem_def INT_MIN_def)

lemma slot_in_range:
  "0 < capacity q \<Longrightarrow> capacity q \<le> QUEUE_CAPACITY \<Longrightarrow>
     0 \<le> k mod capacity q \<and> k mod capacity q < QUEUE_CAPACITY"
  using pos_mod_bound [of "capacity q" k] pos_mod_sign [of "capacity q" k] by linarith

lemma enqueue_full:
  assumes "well_formed q" "capacity q \<le> tailReservation q - head q"
  shows "enqueue q ord = Some (q, False)"
  using assms
  by (simp add: enqueue_def reserve_eq well_formed_def queue_inv_def in_int_def INT_MIN_def)

lemma enqueue_room:
  assumes "well_formed q" "tailReservation q - head q < capacity q" "tailReservation q < INT_MAX"
  shows "enqueue q ord =
           Some (q\<lparr>tailReservation := tailReservation q + 1,
                    orders := (orders q)(tailReservation q mod capacity q := ord),
                    tail := tailReservation q + 1\<rparr>, True)"
  using assms slot_in_range [of q "tailReservation q"]
  by (simp add: enqueue_def reserve_eq well_formed_def queue_inv_def in_int_def INT_MIN_def
      c_rem_nonneg store_order_def await_turn_eq)

lemma dequeue_empty: "head q = tail q \<Longrightarrow> dequeue q = Some (q, None)"
  by (simp add: dequeue_def)

lemma dequeue_nonempty:
  assumes "well_formed q" "head q < tail q"
  shows "dequeue q = Some (q\<lparr>head := head q + 1\<rparr>, Some (orders q (head q mod capacity q)))"
  using assms slot_in_range [of q "head q"]
  by (simp add: dequeue_def well_formed_def queue_inv_def in_int_def INT_MIN_def
      c_rem_nonneg load_order_def Let_def)

lemma enqueue_cases:
  assumes "enqueue q ord = Some (q', ok)"
  shows "(\<not> ok \<and> q' = q \<and> capacity q \<le> tailReservation q - head q) \<or>
         (ok \<and> tailReservation q - head q < capacity q \<and> tail q = tailReservation q \<and>
          tailReservation q < INT_MAX \<and>
          (\<exists>i. q' = q\<lparr>tailReservation := tailReservation q + 1,
                        orders := (orders q)(i := ord), tail := tailReservation q + 1\<rparr>))"
  using assms
  by (auto simp: enqueue_def reserve_eq await_turn_eq in_int_def store_order_def
      split: option.splits if_splits Option.bind_splits)

lemma reserve_cases:
  assumes "reserve q = Some (q', r)"
  shows "(r = None \<and> q' = q) \<or>
         (r = Some (tailReservation q) \<and> tailReservation q - head q < capacity q \<and>
          q' = q\<lparr>tailReservation := tailReservation q + 1\<rparr>)"
  using assms
  by (auto simp: reserve_eq in_int_def split: option.splits if_splits)

lemma dequeue_cases:
  assumes "dequeue q = Some (q', r)"
  shows "(r = None \<and> q' = q \<and> head q = tail q) \<or>
         (r \<noteq> None \<and> head q \<noteq> tail q \<and> q' = q\<lparr>head := head q + 1\<rparr>)"
proof (cases "head q = tail q")
  case True
  with assms show ?thesis by (simp add: dequeue_def)
next
  case False
  with assms have "r \<noteq> None" "q' = q\<lparr>head := head q + 1\<rparr>"
    by (auto simp: dequeue_def in_int_def load_order_def Let_def
        split: if_splits Option.bind_splits)
  with False show ?thesis by simp
qed

lemma enqueue_returns:
  assumes "well_formed q" "tailReservation q < INT_MAX"
  shows "enqueue q ord \<noteq> None"
proof (cases "tailReservation q - head q < capacity q")
  case True
  with assms show ?thesis by (simp add: enqueue_room)
next
  case False
  with assms show ?thesis by (simp add: enqueue_full)
qed

lemma dequeue_returns:
  assumes "well_formed q"
  shows "dequeue q \<noteq> None"
proof (cases "head q < tail q")
  case True
  with assms show ?thesis by (simp add: dequeue_nonempty)
next
  case False
  with assms have "head q = tail q" by (simp add: well_formed_def queue_inv_def)
  then show ?thesis by (simp add: dequeue_empty)
qed

lemma enqueue_rejects_unchanged: "enqueue q ord = Some (q', False) \<Longrightarrow> q' = q"
  using enqueue_cases [of q ord q' False] by simp

section \<open>The queue as a list of pending orders\<close>

lemma mod_distinct:
  fixes c k r :: int
  assumes "0 < c" "k < r" "r - k < c"
  shows "k mod c \<noteq> r mod c"
proof
  assume "k mod c = r mod c"
  then have "c dvd r - k" by (metis mod_eq_dvd_iff)
  with assms show False by (simp add: zdvd_not_zless)
qed

lemma length_pending: "length (pending q) = nat (tail q - head q)"
  by (simp add: pending_def)

lemma pending_empty: "tail q \<le> head q \<Longrightarrow> pending q = []"
  by (simp add: pending_def)

lemma enqueue_accepts:
  assumes wf: "well_formed q"
    and room: "tailReservation q - head q < capacity q"
    and top: "tailReservation q < INT_MAX"
  shows "\<exists>q'. enqueue q ord = Some (q', True) \<and> pending q' = pending q @ [ord] \<and>
           well_formed q' \<and> head q' = head q \<and> capacity q' = capacity q \<and>
           tailReservation q' = tailReservation q + 1"
proof -
  let ?r = "tailReservation q"
  let ?q' = "q\<lparr>tailReservation := ?r + 1,
                orders := (orders q)(?r mod capacity q := ord), tail := ?r + 1\<rparr>"
  from wf have c: "0 < capacity q" and t: "tail q = ?r" and h: "head q \<le> ?r"
    by (simp_all add: well_formed_def queue_inv_def)
  have same: "((orders q)(?r mod capacity q := ord)) (k mod capacity q) = orders q (k mod capacity q)"
    if "k \<in> set [head q .. ?r - 1]" for k
    using that mod_distinct [of "capacity q" k ?r] c room by simp
  have "pending ?q' = map (\<lambda>k. ((orders q)(?r mod capacity q := ord)) (k mod capacity q))
          ([head q .. ?r - 1] @ [?r])"
    using h by (simp add: pending_def upto_rec2)
  also have "\<dots> = pending q @ [ord]"
    using same t by (simp add: pending_def cong: map_cong)
  finally have p: "pending ?q' = pending q @ [ord]" .
  have "well_formed ?q'"
    using wf room top by (simp add: well_formed_def queue_inv_def)
  with p enqueue_room [OF wf room top, of ord] show ?thesis by simp
qed

lemma dequeue_takes:
  assumes wf: "well_formed q" and ne: "head q < tail q"
  shows "\<exists>q' ord. dequeue q = Some (q', Some ord) \<and> pending q = ord # pending q' \<and>
           well_formed q' \<and> head q' = head q + 1 \<and> tail q' = tail q \<and>
           capacity q' = capacity q \<and> tailReservation q' = tailReservation q \<and>
           orders q' = orders q"
proof -
  let ?q' = "q\<lparr>head := head q + 1\<rparr>"
  have "pending q = orders q (head q mod capacity q) # pending ?q'"
    using ne by (simp add: pending_def upto_rec1)
  moreover have "well_formed ?q'"
    using wf ne by (simp add: well_formed_def queue_inv_def)
  ultimately show ?thesis
    using dequeue_nonempty [OF wf ne] by simp
qed

lemma drain_pending:
  assumes "well_formed q" "int (length acc) + (tail q - head q) \<le> QUEUE_CAPACITY"
  shows "drain q acc = Some (q\<lparr>head := tail q\<rparr>, acc @ pending q)"
  using assms
proof (induction "nat (tail q - head q)" arbitrary: q acc)
  case 0
  then have e: "head q = tail q" by (simp add: well_formed_def queue_inv_def)
  then have "q\<lparr>head := tail q\<rparr> = q" by (metis MinimalQueue.surjective MinimalQueue.update_convs(2))
  with e show ?case
    by (subst drain.simps) (simp add: dequeue_empty pending_empty)
next
  case (Suc n)
  then have ne: "head q < tail q" by linarith
  from dequeue_takes [OF Suc.prems(1) ne] obtain q' ord where
    d: "dequeue q = Some (q', Some ord)" and p: "pending q = ord # pending q'" and
    wf: "well_formed q'" and h: "head q' = head q + 1" and t: "tail q' = tail q" and
    rest: "capacity q' = capacity q" "tailReservation q' = tailReservation q" "orders q' = orders q"
    by blast
  have n: "n = nat (tail q' - head q')" using Suc.hyps(2) h t by linarith
  have l: "int (length (acc @ [ord])) + (tail q' - head q') \<le> QUEUE_CAPACITY"
    using Suc.prems(2) h t by simp
  have small: "\<not> QUEUE_CAPACITY \<le> int (length acc)" using Suc.prems(2) ne by linarith
  have "q'\<lparr>head := tail q'\<rparr> = q\<lparr>head := tail q\<rparr>"
    using h t rest by (intro MinimalQueue.equality) simp_all
  with Suc.hyps(1) [OF n wf l] d p small show ?case
    by (subst drain.simps) simp
qed

lemma enqueue_remaining_filter:
  "enqueue_remaining q os = enqueue_all q (filter (\<lambda>ord. quantity ord > 0) os)"
  by (induction os arbitrary: q) (simp_all cong: Option.bind_cong)

lemma free_slots_0: "well_formed q \<Longrightarrow> free_slots q = 0 \<longleftrightarrow> capacity q \<le> tailReservation q - head q"
  by (auto simp: free_slots_def)

lemma enqueue_seq_results:
  assumes "well_formed q" "tailReservation q + int (length os) \<le> INT_MAX"
  shows "\<exists>q'. enqueue_seq q os = Some (q', replicate (min (length os) (free_slots q)) True @
               replicate (length os - free_slots q) False) \<and>
           well_formed q' \<and> pending q' = pending q @ take (free_slots q) os \<and>
           head q' = head q \<and> capacity q' = capacity q \<and>
           tailReservation q' = tailReservation q + int (min (length os) (free_slots q))"
  using assms
proof (induction os arbitrary: q)
  case Nil
  then show ?case by simp
next
  case (Cons ord os)
  show ?case
  proof (cases "free_slots q = 0")
    case True
    with Cons.prems have e: "enqueue q ord = Some (q, False)"
      by (simp add: enqueue_full free_slots_0)
    from Cons.IH [OF Cons.prems(1)] Cons.prems(2) obtain q' where
      "enqueue_seq q os = Some (q', replicate (min (length os) (free_slots q)) True @
               replicate (length os - free_slots q) False)"
      "well_formed q'" "pending q' = pending q @ take (free_slots q) os"
      "head q' = head q" "capacity q' = capacity q"
      "tailReservation q' = tailReservation q + int (min (length os) (free_slots q))"
      by auto
    with e True show ?thesis by simp
  next
    case False
    with Cons.prems have room: "tailReservation q - head q < capacity q" "tailReservation q < INT_MAX"
      by (simp_all add: free_slots_def)
    from enqueue_accepts [OF Cons.prems(1) room, of ord] obtain q1 where
      e: "enqueue q ord = Some (q1, True)" and p: "pending q1 = pending q @ [ord]" and
      wf: "well_formed q1" and f: "head q1 = head q" "capacity q1 = capacity q"
        "tailReservation q1 = tailReservation q + 1"
      by blast
    from f False have fs: "free_slots q1 = free_slots q - 1" by (simp add: free_slots_def)
    from Cons.IH [OF wf] Cons.prems(2) f obtain q' where
      "enqueue_seq q1 os = Some (q', replicate (min (length os) (free_slots q1)) True @
               replicate (length os - free_slots q1) False)"
      "well_formed q'" "pending q' = pending q1 @ take (free_slots q1) os"
      "head q' = head q1" "capacity q' = capacity q1"
      "tailReservation q' = tailReservation q1 + int (min (length os) (free_slots q1))"
      by auto
    with e p f fs False show ?thesis
      by (cases "free_slots q") simp_all
  qed
qed

lemma enqueue_all_seq: "enqueue_all q os = map_option fst (enqueue_seq q os)"
proof (induction os arbitrary: q)
  case Nil
  then show ?case by simp
next
  case (Cons ord os)
  show ?case
  proof (cases "enqueue q ord")
    case None
    then show ?thesis by simp
  next
    case (Some r)
    then show ?thesis
      by (cases r; cases "enqueue_seq (fst r) os") (auto simp: Cons.IH split: prod.splits)
  qed
qed

lemma enqueue_all_take:
  assumes "well_formed q" "tailReservation q + int (length os) \<le> INT_MAX"
  shows "\<exists>q'. enqueue_all q os = Some q' \<and> well_formed q' \<and>
           pending q' = pending q @ take (free_slots q) os"
  using enqueue_seq_results [OF assms] by (auto simp: enqueue_all_seq)

lemma run_fifo:
  assumes "well_formed q" "tailReservation q + int (length ops) \<le> INT_MAX"
  shows "\<exists>q' accepted dequeued. run q ops = Some (q', accepted, dequeued) \<and> well_formed q' \<and>
           pending q @ accepted = dequeued @ pending q'"
  using assms
proof (induction ops arbitrary: q)
  case Nil
  then show ?case by simp
next
  case (Cons op ops)
  show ?case
  proof (cases op)
    case (Enqueue ord)
    show ?thesis
    proof (cases "tailReservation q - head q < capacity q")
      case True
      from Cons.prems(2) have "tailReservation q < INT_MAX" by simp
      from enqueue_accepts [OF Cons.prems(1) True this, of ord] obtain q1 where
        e: "enqueue q ord = Some (q1, True)" and p: "pending q1 = pending q @ [ord]" and
        wf: "well_formed q1" and r: "tailReservation q1 = tailReservation q + 1"
        by blast
      from Cons.IH [OF wf] Cons.prems(2) r obtain q' accepted dequeued where
        "run q1 ops = Some (q', accepted, dequeued)" "well_formed q'"
        "pending q1 @ accepted = dequeued @ pending q'"
        by auto
      with e p Enqueue show ?thesis by simp
    next
      case False
      with Cons.prems(1) have e: "enqueue q ord = Some (q, False)" by (simp add: enqueue_full)
      from Cons.IH [OF Cons.prems(1)] Cons.prems(2) obtain q' accepted dequeued where
        "run q ops = Some (q', accepted, dequeued)" "well_formed q'"
        "pending q @ accepted = dequeued @ pending q'"
        by auto
      with e Enqueue show ?thesis by simp
    qed
  next
    case Dequeue
    show ?thesis
    proof (cases "head q < tail q")
      case True
      from dequeue_takes [OF Cons.prems(1) True] obtain q1 ord where
        d: "dequeue q = Some (q1, Some ord)" and p: "pending q = ord # pending q1" and
        wf: "well_formed q1" and r: "tailReservation q1 = tailReservation q"
        by blast
      from Cons.IH [OF wf] Cons.prems(2) r obtain q' accepted dequeued where
        "run q1 ops = Some (q', accepted, dequeued)" "well_formed q'"
        "pending q1 @ accepted = dequeued @ pending q'"
        by auto
      with d p Dequeue show ?thesis by simp
    next
      case False
      with Cons.prems(1) have "head q = tail q" by (simp add: well_formed_def queue_inv_def)
      then have d: "dequeue q = Some (q, None)" by (rule dequeue_empty)
      from Cons.IH [OF Cons.prems(1)] Cons.prems(2) obtain q' accepted dequeued where
        "run q ops = Some (q', accepted, dequeued)" "well_formed q'"
        "pending q @ accepted = dequeued @ pending q'"
        by auto
      with d Dequeue show ?thesis by simp
    qed
  qed
qed

section \<open>The bucket sorts\<close>

lemma sortedSell_loop_concat:
  "sortedSell_loop p src acc = acc @ concat (map (\<lambda>k. filter (in_bucket k) src) [p..1000])"
proof (induction p src acc rule: sortedSell_loop.induct)
  case (1 p src acc)
  show ?case
  proof (cases "p \<le> 1000")
    case True
    with 1 show ?thesis
      by (subst sortedSell_loop.simps) (simp add: upto_rec1 [of p 1000])
  next
    case False
    then show ?thesis by (subst sortedSell_loop.simps) simp
  qed
qed

lemma sortedBuy_loop_concat:
  "sortedBuy_loop p src acc = acc @ concat (map (\<lambda>k. filter (in_bucket k) src) (rev [10..p]))"
proof (induction p src acc rule: sortedBuy_loop.induct)
  case (1 p src acc)
  show ?case
  proof (cases "10 \<le> p")
    case True
    with 1 show ?thesis
      by (subst sortedBuy_loop.simps) (simp add: upto_rec2 [of 10 p])
  next
    case False
    then show ?thesis by (subst sortedBuy_loop.simps) simp
  qed
qed

lemma mset_buckets:
  assumes "distinct ks"
  shows "mset (concat (map (\<lambda>k. filter (in_bucket k) src) ks)) =
           filter_mset (\<lambda>ord. \<exists>k\<in>set ks. in_bucket k ord) (mset src)"
  using assms
proof (induction ks)
  case Nil
  then show ?case by simp
next
  case (Cons k ks)
  have "filter_mset (in_bucket k) (mset src) +
          filter_mset (\<lambda>ord. \<exists>k\<in>set ks. in_bucket k ord) (mset src) =
        filter_mset (\<lambda>ord. \<exists>k\<in>set (k # ks). in_bucket k ord) (mset src)"
    using Cons.prems by (intro multiset_eqI) (auto simp: in_bucket_def)
  with Cons show ?case by simp
qed

lemma matchable_bucket: "(\<exists>k\<in>{10..1000}. in_bucket k ord) \<longleftrightarrow> matchable ord"
  by (auto simp: matchable_def in_bucket_def split: option.splits)

lemma mset_sortedSell: "mset (sortedSell_loop 10 src []) = mset (filter matchable src)"
  by (simp add: sortedSell_loop_concat mset_buckets matchable_bucket del: upto_rec_numeral)

lemma mset_sortedBuy: "mset (sortedBuy_loop 1000 src []) = mset (filter matchable src)"
  by (simp add: sortedBuy_loop_concat mset_buckets matchable_bucket del: upto_rec_numeral)

lemma in_bucket_matchable: "in_bucket k ord \<Longrightarrow> 10 \<le> k \<Longrightarrow> k \<le> 1000 \<Longrightarrow> matchable ord"
  by (simp add: matchable_def in_bucket_def)

lemma buckets_matchable:
  assumes "set ks \<subseteq> {10..1000}"
  shows "map (\<lambda>k. filter (in_bucket k) (filter matchable src)) ks =
         map (\<lambda>k. filter (in_bucket k) src) ks"
proof (rule map_cong [OF refl])
  fix k assume "k \<in> set ks"
  with assms have "10 \<le> k" "k \<le> 1000" by auto
  then have "matchable x \<and> in_bucket k x \<longleftrightarrow> in_bucket k x" for x
    using in_bucket_matchable by blast
  then show "filter (in_bucket k) (filter matchable src) = filter (in_bucket k) src"
    by simp
qed

lemma sortedSell_matchable: "sortedSell_loop 10 (filter matchable src) [] = sortedSell_loop 10 src []"
  unfolding sortedSell_loop_concat append_Nil
  by (rule arg_cong [where f = concat], rule buckets_matchable) (simp del: upto_rec_numeral)

lemma sortedBuy_matchable: "sortedBuy_loop 1000 (filter matchable src) [] = sortedBuy_loop 1000 src []"
  unfolding sortedBuy_loop_concat append_Nil
  by (rule arg_cong [where f = concat], rule buckets_matchable) (simp del: upto_rec_numeral)

lemma length_sortedSell: "length (sortedSell_loop 10 src []) \<le> length src"
proof -
  have "length (sortedSell_loop 10 src []) = length (filter matchable src)"
    using mset_sortedSell [of src] by (metis size_mset)
  then show ?thesis by simp
qed

lemma length_sortedBuy: "length (sortedBuy_loop 1000 src []) \<le> length src"
proof -
  have "length (sortedBuy_loop 1000 src []) = length (filter matchable src)"
    using mset_sortedBuy [of src] by (metis size_mset)
  then show ?thesis by simp
qed

lemma sorted_matchable:
  "ord \<in> set (sortedBuy_loop 1000 src []) \<Longrightarrow> matchable ord"
  "ord \<in> set (sortedSell_loop 10 src []) \<Longrightarrow> matchable ord"
  using mset_sortedBuy [of src, THEN mset_eq_setD] mset_sortedSell [of src, THEN mset_eq_setD]
  by auto

lemma matchable_price:
  assumes "matchable ord0" "price ord = price ord0" "0 < quantity ord"
  shows "matchable ord"
  using assms by (simp add: matchable_def)

lemma valid_order_matchable:
  assumes "valid_order ord"
  shows "matchable ord"
proof -
  from assms have p: "10 \<le> \<lfloor>price ord\<rfloor>" "\<lfloor>price ord\<rfloor> \<le> 1000" "0 \<le> price ord" "0 < quantity ord"
    by (simp_all add: valid_order_def le_floor_iff floor_le_iff)
  then have "to_int (price ord) = Some \<lfloor>price ord\<rfloor>"
    by (simp add: to_int_def in_int_def INT_MIN_def INT_MAX_def)
  with p show ?thesis by (simp add: matchable_def)
qed

lemma matchable_castable: "\<forall>ord\<in>set os. matchable ord \<Longrightarrow> castable os"
  by (auto simp: castable_def list_all_iff matchable_def split: option.splits)

section \<open>The two-pointer loop\<close>

lemma sum_list_update_int:
  fixes xs :: "int list"
  shows "i < length xs \<Longrightarrow> sum_list (xs[i := v]) = sum_list xs - xs ! i + v"
  by (induction xs arbitrary: i) (auto split: nat.splits)

lemma total_quantity_update:
  assumes "i < length os"
  shows "total_quantity (os[i := (os ! i)\<lparr>quantity := quantity (os ! i) - m\<rparr>]) = total_quantity os - m"
  using assms by (simp add: total_quantity_def map_update sum_list_update_int)

lemma two_pointer_stop:
  "\<not> (i < length sb \<and> j < length ss \<and> price (ss ! j) \<le> price (sb ! i)) \<Longrightarrow>
     two_pointer tkr i j sb ss out = (sb, ss, out)"
  by (subst two_pointer.simps) auto

lemma two_pointer_props:
  assumes "two_pointer tkr i j sb ss out = (sb', ss', out')"
  shows "length sb' = length sb \<and> length ss' = length ss \<and>
         map price sb' = map price sb \<and> map price ss' = map price ss \<and>
         total_quantity sb' + total_matched out' = total_quantity sb + total_matched out \<and>
         total_quantity ss' + total_matched out' = total_quantity ss + total_matched out"
  using assms
proof (induction tkr i j sb ss out rule: two_pointer.induct)
  case (1 tkr i j sb ss out)
  show ?case
  proof (cases "i < length sb \<and> j < length ss \<and> price (ss ! j) \<le> price (sb ! i)")
    case False
    with "1.prems" show ?thesis by (simp add: two_pointer_stop)
  next
    case True
    define m where "m = (if quantity (sb ! i) < quantity (ss ! j)
                         then quantity (sb ! i) else quantity (ss ! j))"
    define out1 where "out1 = out @ [Matched tkr m (price (ss ! j))]"
    define sb1 where "sb1 = sb[i := (sb ! i)\<lparr>quantity := quantity (sb ! i) - m\<rparr>]"
    define ss1 where "ss1 = ss[j := (ss ! j)\<lparr>quantity := quantity (ss ! j) - m\<rparr>]"
    define i1 where "i1 = (if quantity (sb1 ! i) = 0 then i + 1 else i)"
    define j1 where "j1 = (if quantity (ss1 ! j) = 0 then j + 1 else j)"
    have run: "two_pointer tkr i1 j1 sb1 ss1 out1 = (sb', ss', out')"
      using "1.prems" True
      by (subst (asm) two_pointer.simps) (simp add: Let_def m_def out1_def sb1_def ss1_def i1_def j1_def)
    have ih: "length sb' = length sb1 \<and> length ss' = length ss1 \<and>
         map price sb' = map price sb1 \<and> map price ss' = map price ss1 \<and>
         total_quantity sb' + total_matched out' = total_quantity sb1 + total_matched out1 \<and>
         total_quantity ss' + total_matched out' = total_quantity ss1 + total_matched out1"
      using True by (intro "1.IH" [OF _ _ m_def out1_def sb1_def ss1_def i1_def j1_def run]) simp_all
    have "map price sb1 = map price sb" "map price ss1 = map price ss"
      using True by (simp_all add: sb1_def ss1_def map_update list_update_same_conv)
    moreover have "total_quantity sb1 = total_quantity sb - m" "total_quantity ss1 = total_quantity ss - m"
      using True by (simp_all add: sb1_def ss1_def total_quantity_update)
    moreover have "total_matched out1 = total_matched out + m"
      by (simp add: out1_def total_matched_def)
    ultimately show ?thesis using ih by (simp add: sb1_def ss1_def)
  qed
qed

lemma settled_nonneg: "settled i os \<Longrightarrow> ord \<in> set os \<Longrightarrow> 0 \<le> quantity ord"
  unfolding settled_def in_set_conv_nth by (metis less_le_not_le)

lemma settled_0: "settled 0 os \<longleftrightarrow> (\<forall>ord\<in>set os. 0 < quantity ord)"
  unfolding settled_def by (metis in_set_conv_nth not_less_zero)

lemma settled_step:
  assumes "settled i os" "i < length os" "0 \<le> quantity (os ! i) - m"
  shows "settled (if quantity (os ! i) - m = 0 then i + 1 else i)
           (os[i := (os ! i)\<lparr>quantity := quantity (os ! i) - m\<rparr>])"
  using assms unfolding settled_def
  by (auto simp: nth_list_update less_Suc_eq)

lemma only_trades_snoc:
  "only_trades tkr (out @ [Matched tkr n p]) \<longleftrightarrow> only_trades tkr out \<and> 0 < n"
  by (simp add: only_trades_def)

lemma two_pointer_settled:
  assumes "two_pointer tkr i j sb ss out = (sb', ss', out')" "settled i sb" "settled j ss"
    "only_trades tkr out"
  shows "(\<forall>ord\<in>set sb'. 0 \<le> quantity ord) \<and> (\<forall>ord\<in>set ss'. 0 \<le> quantity ord) \<and>
         only_trades tkr out'"
  using assms
proof (induction tkr i j sb ss out rule: two_pointer.induct)
  case (1 tkr i j sb ss out)
  show ?case
  proof (cases "i < length sb \<and> j < length ss \<and> price (ss ! j) \<le> price (sb ! i)")
    case False
    with "1.prems" show ?thesis by (auto simp: two_pointer_stop dest: settled_nonneg)
  next
    case True
    define m where "m = (if quantity (sb ! i) < quantity (ss ! j)
                         then quantity (sb ! i) else quantity (ss ! j))"
    define out1 where "out1 = out @ [Matched tkr m (price (ss ! j))]"
    define sb1 where "sb1 = sb[i := (sb ! i)\<lparr>quantity := quantity (sb ! i) - m\<rparr>]"
    define ss1 where "ss1 = ss[j := (ss ! j)\<lparr>quantity := quantity (ss ! j) - m\<rparr>]"
    define i1 where "i1 = (if quantity (sb1 ! i) = 0 then i + 1 else i)"
    define j1 where "j1 = (if quantity (ss1 ! j) = 0 then j + 1 else j)"
    have run: "two_pointer tkr i1 j1 sb1 ss1 out1 = (sb', ss', out')"
      using "1.prems"(1) True
      by (subst (asm) two_pointer.simps) (simp add: Let_def m_def out1_def sb1_def ss1_def i1_def j1_def)
    from "1.prems"(2,3) True have pos: "0 < quantity (sb ! i)" "0 < quantity (ss ! j)"
      by (auto simp: settled_def)
    then have m: "0 < m" "0 \<le> quantity (sb ! i) - m" "0 \<le> quantity (ss ! j) - m"
      by (auto simp: m_def)
    have "settled i1 sb1" "settled j1 ss1"
      using settled_step [OF "1.prems"(2) _ m(2)] settled_step [OF "1.prems"(3) _ m(3)] True
      by (simp_all add: i1_def j1_def sb1_def ss1_def)
    moreover have "only_trades tkr out1"
      using "1.prems"(4) m(1) by (simp add: out1_def only_trades_snoc)
    ultimately show ?thesis
      using True by (intro "1.IH" [OF _ _ m_def out1_def sb1_def ss1_def i1_def j1_def run]) simp_all
  qed
qed

section \<open>A pass\<close>

lemma total_quantity_mset: "mset xs = mset ys \<Longrightarrow> total_quantity xs = total_quantity ys"
  unfolding total_quantity_def by (metis mset_map sum_mset_sum_list)

lemma total_quantity_positive:
  "\<forall>ord\<in>set os. 0 \<le> quantity ord \<Longrightarrow>
     total_quantity (filter (\<lambda>ord. quantity ord > 0) os) = total_quantity os"
  by (induction os) (auto simp: total_quantity_def)

lemma pass_empty_side: "buys = [] \<or> sells = [] \<Longrightarrow> pass tkr buys sells = (buys, sells, [])"
  by (simp add: pass_def)

lemma length_pass:
  assumes "pass tkr buys sells = (rb, rs, out)"
  shows "length rb \<le> length buys \<and> length rs \<le> length sells"
proof (cases "buys = [] \<or> sells = []")
  case True
  with assms show ?thesis by (auto simp: pass_def)
next
  case False
  obtain sb ss out' where
    t: "two_pointer tkr 0 0 (sortedBuy_loop 1000 buys []) (sortedSell_loop 10 sells []) [] = (sb, ss, out')"
    by (metis prod_cases3)
  from two_pointer_props [OF t] have
    "length sb \<le> length buys" "length ss \<le> length sells"
    using length_sortedBuy [of buys] length_sortedSell [of sells] by simp_all
  moreover have "rb = filter (\<lambda>ord. quantity ord > 0) sb" "rs = filter (\<lambda>ord. quantity ord > 0) ss"
    using assms False t by (simp_all add: pass_def)
  ultimately show ?thesis
    by (auto intro: le_trans [OF length_filter_le])
qed

lemma pass_crossing:
  assumes ne: "buys \<noteq> []" "sells \<noteq> []" and pass: "pass tkr buys sells = (rb, rs, out)"
  shows "total_quantity rb + total_quantity rs + 2 * total_matched out =
           total_quantity (filter matchable buys) + total_quantity (filter matchable sells) \<and>
         (\<forall>ord\<in>set rb \<union> set rs. matchable ord) \<and> only_trades tkr out"
proof -
  let ?sb0 = "sortedBuy_loop 1000 buys []" and ?ss0 = "sortedSell_loop 10 sells []"
  obtain sb ss where t: "two_pointer tkr 0 0 ?sb0 ?ss0 [] = (sb, ss, out)"
    and rb: "rb = filter (\<lambda>ord. quantity ord > 0) sb"
    and rs: "rs = filter (\<lambda>ord. quantity ord > 0) ss"
    using ne pass by (auto simp: pass_def split: prod.splits)
  have pos: "settled 0 ?sb0" "settled 0 ?ss0"
    using sorted_matchable by (auto simp: settled_0 matchable_def)
  from two_pointer_settled [OF t pos] have
    nonneg: "\<forall>ord\<in>set sb. 0 \<le> quantity ord" "\<forall>ord\<in>set ss. 0 \<le> quantity ord" and
    trades: "only_trades tkr out"
    by (simp_all add: only_trades_def)
  from two_pointer_props [OF t] have
    prices: "map price sb = map price ?sb0" "map price ss = map price ?ss0" and
    sums: "total_quantity sb + total_matched out = total_quantity ?sb0"
      "total_quantity ss + total_matched out = total_quantity ?ss0"
    by (simp_all add: total_matched_def)
  have "total_quantity ?sb0 = total_quantity (filter matchable buys)"
    "total_quantity ?ss0 = total_quantity (filter matchable sells)"
    by (simp_all add: total_quantity_mset mset_sortedBuy mset_sortedSell)
  with sums nonneg have total: "total_quantity rb + total_quantity rs + 2 * total_matched out =
      total_quantity (filter matchable buys) + total_quantity (filter matchable sells)"
    by (simp add: rb rs total_quantity_positive)
  have "matchable ord" if "ord \<in> set rb \<union> set rs" for ord
  proof -
    from that have q: "0 < quantity ord" and "ord \<in> set sb \<or> ord \<in> set ss"
      by (auto simp: rb rs)
    then have "price ord \<in> set (map price sb) \<or> price ord \<in> set (map price ss)" by auto
    then have "price ord \<in> price ` set ?sb0 \<or> price ord \<in> price ` set ?ss0"
      by (simp only: prices set_map)
    then obtain ord0 where "matchable ord0" "price ord = price ord0"
      using sorted_matchable by (metis imageE)
    with q show ?thesis by (simp add: matchable_price)
  qed
  with total trades show ?thesis by blast
qed

lemma pass_only_trades: "pass tkr buys sells = (rb, rs, out) \<Longrightarrow> only_trades tkr out"
proof (cases "buys = [] \<or> sells = []")
  case True
  then show "pass tkr buys sells = (rb, rs, out) \<Longrightarrow> only_trades tkr out"
    by (auto simp: pass_def only_trades_def)
next
  case False
  then show "pass tkr buys sells = (rb, rs, out) \<Longrightarrow> only_trades tkr out"
    using pass_crossing [of buys sells tkr rb rs out] by simp
qed

lemma pass_example:
  "pass tkr
     [\<lparr>type = c1, ticker = t1, quantity = 20, price = 100\<rparr>,
      \<lparr>type = c2, ticker = t2, quantity = 10, price = 90\<rparr>]
     [\<lparr>type = c3, ticker = t3, quantity = 15, price = 95\<rparr>,
      \<lparr>type = c4, ticker = t4, quantity = 25, price = 100\<rparr>] =
   ([\<lparr>type = c2, ticker = t2, quantity = 10, price = 90\<rparr>],
    [\<lparr>type = c4, ticker = t4, quantity = 20, price = 100\<rparr>],
    [Matched tkr 15 95, Matched tkr 5 100])"
  by code_simp

lemma two_orders:
  assumes "map (\<lambda>ord. (price ord, quantity ord)) os = [(p1, n1), (p2, n2)]"
  shows "os = [\<lparr>type = type (os ! 0), ticker = ticker (os ! 0), quantity = n1, price = p1\<rparr>,
               \<lparr>type = type (os ! 1), ticker = ticker (os ! 1), quantity = n2, price = p2\<rparr>]"
  using assms by (auto simp: map_eq_Cons_conv)

lemma matchOrders_drain_pending:
  assumes "0 \<le> tkr" "tkr < NUM_TICKERS"
    and "well_formed (buyQueues book tkr)" "well_formed (sellQueues book tkr)"
  shows "matchOrders_drain book tkr =
           Some (book\<lparr>buyQueues := (buyQueues book)
                         (tkr := (buyQueues book tkr)\<lparr>head := tail (buyQueues book tkr)\<rparr>),
                      sellQueues := (sellQueues book)
                         (tkr := (sellQueues book tkr)\<lparr>head := tail (sellQueues book tkr)\<rparr>)\<rparr>,
                 pending (buyQueues book tkr), pending (sellQueues book tkr))"
proof -
  from assms(3,4) have
    "int (length ([]::Order list)) + (tail (buyQueues book tkr) - head (buyQueues book tkr))
       \<le> QUEUE_CAPACITY"
    "int (length ([]::Order list)) + (tail (sellQueues book tkr) - head (sellQueues book tkr))
       \<le> QUEUE_CAPACITY"
    by (simp_all add: well_formed_def queue_inv_def)
  with assms show ?thesis
    by (simp add: matchOrders_drain_def drain_pending)
qed

lemma matchOrders_publish_take:
  assumes tkr: "0 \<le> tkr" "tkr < NUM_TICKERS"
    and bq: "well_formed (buyQueues book tkr)"
      "tailReservation (buyQueues book tkr) + int (length buys) \<le> INT_MAX"
    and sq: "well_formed (sellQueues book tkr)"
      "tailReservation (sellQueues book tkr) + int (length sells) \<le> INT_MAX"
    and cast: "buys = [] \<or> sells = [] \<or> castable (sells @ buys)"
    and pass: "pass tkr buys sells = (rb, rs, out)"
  shows "\<exists>book'. matchOrders_publish book tkr buys sells = Some (book', out) \<and>
           pending (buyQueues book' tkr) =
             pending (buyQueues book tkr) @ take (free_slots (buyQueues book tkr)) rb \<and>
           pending (sellQueues book' tkr) =
             pending (sellQueues book tkr) @ take (free_slots (sellQueues book tkr)) rs \<and>
           well_formed (buyQueues book' tkr) \<and> well_formed (sellQueues book' tkr) \<and>
           (\<forall>t. t \<noteq> tkr \<longrightarrow> buyQueues book' t = buyQueues book t \<and>
                              sellQueues book' t = sellQueues book t)"
proof -
  from length_pass [OF pass] have len: "length rb \<le> length buys" "length rs \<le> length sells"
    by simp_all
  with bq(2) sq(2) have lim: "tailReservation (buyQueues book tkr) + int (length rb) \<le> INT_MAX"
    "tailReservation (sellQueues book tkr) + int (length rs) \<le> INT_MAX"
    by simp_all
  from enqueue_all_take [OF bq(1) lim(1)] obtain bq' where
    b: "enqueue_all (buyQueues book tkr) rb = Some bq'" "well_formed bq'"
      "pending bq' = pending (buyQueues book tkr) @ take (free_slots (buyQueues book tkr)) rb"
    by blast
  from enqueue_all_take [OF sq(1) lim(2)] obtain sq' where
    s: "enqueue_all (sellQueues book tkr) rs = Some sq'" "well_formed sq'"
      "pending sq' = pending (sellQueues book tkr) @ take (free_slots (sellQueues book tkr)) rs"
    by blast
  let ?book' = "book\<lparr>buyQueues := (buyQueues book)(tkr := bq'),
                     sellQueues := (sellQueues book)(tkr := sq')\<rparr>"
  have "matchOrders_publish book tkr buys sells = Some (?book', out)"
  proof (cases "buys = [] \<or> sells = []")
    case True
    with pass have "rb = buys" "rs = sells" "out = []" by (simp_all add: pass_def)
    with True tkr b s show ?thesis by (simp add: matchOrders_publish_def)
  next
    case False
    obtain sb ss out' where
      t: "two_pointer tkr 0 0 (sortedBuy_loop 1000 buys []) (sortedSell_loop 10 sells []) [] =
            (sb, ss, out')"
      by (metis prod_cases3)
    with pass False have "rb = filter (\<lambda>ord. quantity ord > 0) sb"
      "rs = filter (\<lambda>ord. quantity ord > 0) ss" "out = out'"
      by (simp_all add: pass_def)
    with False tkr b s t cast show ?thesis
      by (simp add: matchOrders_publish_def enqueue_remaining_filter castable_def)
  qed
  with b s show ?thesis by simp
qed

lemma matchOrders_pass:
  assumes tkr: "0 \<le> tkr" "tkr < NUM_TICKERS"
    and bq: "well_formed (buyQueues book tkr)" "below_limit (buyQueues book tkr)"
    and sq: "well_formed (sellQueues book tkr)" "below_limit (sellQueues book tkr)"
    and cast: "pending (buyQueues book tkr) = [] \<or> pending (sellQueues book tkr) = [] \<or>
               castable (pending (sellQueues book tkr) @ pending (buyQueues book tkr))"
    and pass: "pass tkr (pending (buyQueues book tkr)) (pending (sellQueues book tkr)) = (rb, rs, out)"
  shows "\<exists>book'. matchOrders book tkr = Some (book', out) \<and>
           pending (buyQueues book' tkr) = rb \<and> pending (sellQueues book' tkr) = rs \<and>
           well_formed (buyQueues book' tkr) \<and> well_formed (sellQueues book' tkr) \<and>
           (\<forall>t. t \<noteq> tkr \<longrightarrow> buyQueues book' t = buyQueues book t \<and>
                              sellQueues book' t = sellQueues book t)"
proof -
  let ?b = "buyQueues book tkr" and ?s = "sellQueues book tkr"
  let ?b1 = "?b\<lparr>head := tail ?b\<rparr>" and ?s1 = "?s\<lparr>head := tail ?s\<rparr>"
  let ?book1 = "book\<lparr>buyQueues := (buyQueues book)(tkr := ?b1),
                      sellQueues := (sellQueues book)(tkr := ?s1)\<rparr>"
  note d = matchOrders_drain_pending [OF tkr bq(1) sq(1)]
  from bq(1) sq(1) have occ: "tail ?b - head ?b \<le> capacity ?b" "tail ?s - head ?s \<le> capacity ?s"
    "capacity ?b \<le> QUEUE_CAPACITY" "capacity ?s \<le> QUEUE_CAPACITY"
    "0 < capacity ?b" "0 < capacity ?s"
    and wf: "well_formed ?b1" "well_formed ?s1"
    and full: "tail ?b = tailReservation ?b" "tail ?s = tailReservation ?s"
    by (auto simp: well_formed_def queue_inv_def)
  from length_pass [OF pass] have "length rb \<le> nat (tail ?b - head ?b)"
    "length rs \<le> nat (tail ?s - head ?s)"
    by (simp_all add: length_pending)
  with occ have fits: "length rb \<le> free_slots ?b1" "length rs \<le> free_slots ?s1"
    by (auto simp: free_slots_def full)
  have "\<exists>book'. matchOrders_publish ?book1 tkr (pending ?b) (pending ?s) = Some (book', out) \<and>
           pending (buyQueues book' tkr) =
             pending (buyQueues ?book1 tkr) @ take (free_slots (buyQueues ?book1 tkr)) rb \<and>
           pending (sellQueues book' tkr) =
             pending (sellQueues ?book1 tkr) @ take (free_slots (sellQueues ?book1 tkr)) rs \<and>
           well_formed (buyQueues book' tkr) \<and> well_formed (sellQueues book' tkr) \<and>
           (\<forall>t. t \<noteq> tkr \<longrightarrow> buyQueues book' t = buyQueues ?book1 t \<and>
                              sellQueues book' t = sellQueues ?book1 t)"
  proof (rule matchOrders_publish_take [OF tkr _ _ _ _ cast pass])
    show "well_formed (buyQueues ?book1 tkr)" "well_formed (sellQueues ?book1 tkr)"
      using wf by simp_all
    show "tailReservation (buyQueues ?book1 tkr) + int (length (pending ?b)) \<le> INT_MAX"
      "tailReservation (sellQueues ?book1 tkr) + int (length (pending ?s)) \<le> INT_MAX"
      using occ bq(2) sq(2) by (simp_all add: length_pending below_limit_def)
  qed
  with d fits show ?thesis by (auto simp: matchOrders_def pending_empty)
qed

section \<open>The order book\<close>

lemma initOrderBook_loop_queues:
  "buyQueues (initOrderBook_loop i book) t =
     (if i \<le> t \<and> t < NUM_TICKERS then initQueue (buyQueues book t) QUEUE_CAPACITY
      else buyQueues book t) \<and>
   sellQueues (initOrderBook_loop i book) t =
     (if i \<le> t \<and> t < NUM_TICKERS then initQueue (sellQueues book t) QUEUE_CAPACITY
      else sellQueues book t)"
proof (induction i book rule: initOrderBook_loop.induct)
  case (1 i book)
  show ?case
  proof (cases "i < NUM_TICKERS")
    case True
    with 1 show ?thesis by (auto simp: initOrderBook_loop.simps [of i book])
  next
    case False
    then show ?thesis by (auto simp: initOrderBook_loop.simps [of i book])
  qed
qed

lemma fresh_book_queues:
  assumes "0 \<le> t" "t < NUM_TICKERS"
  shows "buyQueues fresh_book t = fresh_Queue" "sellQueues fresh_book t = fresh_Queue"
  using assms
  by (simp_all add: fresh_book_def initOrderBook_def initOrderBook_loop_queues fresh_Queue_def
      static_book_def)

lemma addOrder_enqueue:
  assumes "orderType = CHR ''B'' \<or> orderType = CHR ''S''" "0 \<le> tkr" "tkr < NUM_TICKERS"
    and "enqueue (queues_of orderType book tkr)
           \<lparr>type = orderType, ticker = tkr, quantity = qty, price = prc\<rparr> = Some (q, success)"
  shows "\<exists>book'. addOrder book orderType tkr qty prc =
           Some (book', if success then Order_Added orderType tkr qty prc else Queue_Full tkr) \<and>
           queues_of orderType book' = (queues_of orderType book)(tkr := q)"
  using assms by (auto simp: addOrder_def queues_of_def)

lemma addOrders_buy:
  assumes "0 \<le> tkr" "tkr < NUM_TICKERS"
    and "well_formed (buyQueues book tkr)"
    and "tailReservation (buyQueues book tkr) + int (length calls) \<le> INT_MAX"
    and "\<forall>call\<in>set calls. fst call = CHR ''B'' \<and> fst (snd call) = tkr"
  shows "\<exists>book' ms. addOrders book calls = Some (book', ms) \<and>
           well_formed (buyQueues book' tkr) \<and>
           pending (buyQueues book' tkr) =
             pending (buyQueues book tkr) @ take (free_slots (buyQueues book tkr)) (map order_of calls) \<and>
           free_slots (buyQueues book' tkr) = free_slots (buyQueues book tkr) - length calls \<and>
           tailReservation (buyQueues book' tkr) \<le> tailReservation (buyQueues book tkr) + int (length calls) \<and>
           sellQueues book' = sellQueues book"
  using assms(3-5)
proof (induction calls arbitrary: book)
  case Nil
  then show ?case by simp
next
  case (Cons call calls)
  obtain n p where call: "call = (CHR ''B'', tkr, n, p)"
    using Cons.prems(3) by (cases call) auto
  let ?q = "buyQueues book tkr"
  let ?ord = "\<lparr>type = CHR ''B'', ticker = tkr, quantity = n, price = p\<rparr>"
  have oc: "order_of (CHR ''B'', tkr, n, p) = ?ord" by (simp add: order_of_def)
  show ?case
  proof (cases "0 < free_slots ?q")
    case True
    with Cons.prems(2) have room: "tailReservation ?q - head ?q < capacity ?q"
      "tailReservation ?q < INT_MAX"
      by (simp_all add: free_slots_def)
    from enqueue_accepts [OF Cons.prems(1) room, of ?ord] obtain q1 where
      e: "enqueue ?q ?ord = Some (q1, True)" and p: "pending q1 = pending ?q @ [?ord]" and
      wf: "well_formed q1" and f: "head q1 = head ?q" "capacity q1 = capacity ?q"
        "tailReservation q1 = tailReservation ?q + 1"
      by blast
    let ?book1 = "book\<lparr>buyQueues := (buyQueues book)(tkr := q1)\<rparr>"
    have a: "addOrder book (CHR ''B'') tkr n p = Some (?book1, Order_Added (CHR ''B'') tkr n p)"
      using assms(1,2) e by (simp add: addOrder_def)
    from f True have fs: "free_slots q1 = free_slots ?q - 1" by (simp add: free_slots_def)
    have "\<exists>book' ms. addOrders ?book1 calls = Some (book', ms) \<and>
            well_formed (buyQueues book' tkr) \<and>
            pending (buyQueues book' tkr) =
              pending (buyQueues ?book1 tkr) @
              take (free_slots (buyQueues ?book1 tkr)) (map order_of calls) \<and>
            free_slots (buyQueues book' tkr) = free_slots (buyQueues ?book1 tkr) - length calls \<and>
            tailReservation (buyQueues book' tkr)
              \<le> tailReservation (buyQueues ?book1 tkr) + int (length calls) \<and>
            sellQueues book' = sellQueues ?book1"
      using wf f Cons.prems(2,3) by (intro Cons.IH) simp_all
    then obtain book' ms where
      "addOrders ?book1 calls = Some (book', ms)" "well_formed (buyQueues book' tkr)"
      "pending (buyQueues book' tkr) = pending q1 @ take (free_slots q1) (map order_of calls)"
      "free_slots (buyQueues book' tkr) = free_slots q1 - length calls"
      "tailReservation (buyQueues book' tkr) \<le> tailReservation q1 + int (length calls)"
      "sellQueues book' = sellQueues book"
      by auto
    with a p f fs True call oc show ?thesis
      by (cases "free_slots ?q") simp_all
  next
    case False
    with Cons.prems(1) have e: "enqueue ?q ?ord = Some (?q, False)"
      by (simp add: enqueue_full free_slots_def)
    have a: "addOrder book (CHR ''B'') tkr n p = Some (book, Queue_Full tkr)"
      using assms(1,2) e by (simp add: addOrder_def)
    from Cons.IH [OF Cons.prems(1)] Cons.prems(2,3) obtain book' ms where
      "addOrders book calls = Some (book', ms)" "well_formed (buyQueues book' tkr)"
      "pending (buyQueues book' tkr) = pending ?q @ take (free_slots ?q) (map order_of calls)"
      "free_slots (buyQueues book' tkr) = free_slots ?q - length calls"
      "tailReservation (buyQueues book' tkr) \<le> tailReservation ?q + int (length calls)"
      "sellQueues book' = sellQueues book"
      by auto
    with a False call show ?thesis by simp
  qed
qed

section \<open>The queue under interleaving\<close>

lemma producer_inv_grow:
  assumes "producer_inv q p" "head q \<le> head q'" "tail q' = tail q"
    "tailReservation q \<le> tailReservation q'"
  shows "producer_inv q' p"
  using assms by (cases p) auto

lemma producer_inv_publish:
  assumes "producer_inv q p" "held p \<noteq> Some (tail q)" "head q' = head q" "tail q' = tail q + 1"
    "tailReservation q' = tailReservation q"
  shows "producer_inv q' p"
  using assms by (cases p) auto

lemma held_bound:
  assumes "producer_inv q p" "held p = Some pos"
  shows "tail q \<le> pos \<and> pos < tailReservation q"
  using assms by (cases p) auto

lemma system_inv_producer:
  assumes "system_inv s" "producer_inv (queue s) p"
    "held p = None \<or> held p = held (producers s i)"
  shows "system_inv (s\<lparr>producers := (producers s)(i := p)\<rparr>)"
proof -
  from assms(1) have inv: "queue_inv (queue s)" "\<And>j. producer_inv (queue s) (producers s j)"
    "\<And>j k x. held (producers s j) = Some x \<Longrightarrow> held (producers s k) = Some x \<Longrightarrow> j = k"
    "consumer_inv (queue s) (consumer s)"
    by (simp_all add: system_inv_def)
  have old: "held (producers s j) = Some x" if "held (((producers s)(i := p)) j) = Some x" for j x
  proof (cases "j = i")
    case True
    with that have "held p = Some x" by simp
    with assms(3) have "held (producers s i) = Some x" by auto
    with True show ?thesis by simp
  next
    case False
    with that show ?thesis by simp
  qed
  show ?thesis
    unfolding system_inv_def
  proof (intro conjI allI impI)
    show "queue_inv (queue (s\<lparr>producers := (producers s)(i := p)\<rparr>))"
      using inv(1) by simp
    show "producer_inv (queue (s\<lparr>producers := (producers s)(i := p)\<rparr>))
            (producers (s\<lparr>producers := (producers s)(i := p)\<rparr>) j)" for j
      using inv(2) assms(2) by simp
    show "consumer_inv (queue (s\<lparr>producers := (producers s)(i := p)\<rparr>))
            (consumer (s\<lparr>producers := (producers s)(i := p)\<rparr>))"
      using inv(4) by simp
    show "j = k"
      if "held (producers (s\<lparr>producers := (producers s)(i := p)\<rparr>) j) = Some x \<and>
          held (producers (s\<lparr>producers := (producers s)(i := p)\<rparr>) k) = Some x" for j k x
    proof -
      from that have "held (((producers s)(i := p)) j) = Some x"
        "held (((producers s)(i := p)) k) = Some x"
        by simp_all
      from inv(3) [OF old [OF this(1)] old [OF this(2)]] show ?thesis .
    qed
  qed
qed

lemma system_inv_consumer:
  assumes "system_inv s" "consumer_inv (queue s) c"
  shows "system_inv (s\<lparr>consumer := c\<rparr>)"
  using assms unfolding system_inv_def by simp

lemma system_invD:
  assumes "system_inv s"
  shows "queue_inv (queue s)" "producer_inv (queue s) (producers s j)"
    "held (producers s j) = Some x \<Longrightarrow> held (producers s k) = Some x \<Longrightarrow> j = k"
    "consumer_inv (queue s) (consumer s)"
  using assms by (simp_all add: system_inv_def)

lemma system_invI:
  assumes "queue_inv (queue s)" "\<And>j. producer_inv (queue s) (producers s j)"
    "\<And>j k x. held (producers s j) = Some x \<Longrightarrow> held (producers s k) = Some x \<Longrightarrow> j = k"
    "consumer_inv (queue s) (consumer s)"
  shows "system_inv s"
  using assms unfolding system_inv_def by blast

lemma consumer_inv_grow:
  assumes "consumer_inv q c" "head q' = head q" "tail q \<le> tail q'"
  shows "consumer_inv q' c"
  using assms by (cases c) auto

lemma step_cas_success:
  assumes inv: "system_inv s" and p: "producers s i = P_Loaded_Head ord pos h"
    and d: "in_int (pos - h) = Some d" "d < capacity (queue s)"
    and pos1: "in_int (pos + 1) = Some pos1" and cas: "tailReservation (queue s) = pos"
  shows "system_inv (s\<lparr>queue := (queue s)\<lparr>tailReservation := pos1\<rparr>,
           producers := (producers s)(i := P_Reserved ord pos)\<rparr>)"
proof (rule system_invI)
  let ?q = "(queue s)\<lparr>tailReservation := pos1\<rparr>"
  let ?s = "s\<lparr>queue := ?q, producers := (producers s)(i := P_Reserved ord pos)\<rparr>"
  from pos1 have p1: "pos1 = pos + 1" by (simp add: in_int_def split: if_splits)
  from d have dd: "pos - h < capacity (queue s)" by (auto simp: in_int_def split: if_splits)
  from system_invD(2) [OF inv, of i] p have h: "h \<le> head (queue s)" by simp
  from system_invD(1) [OF inv] have qi: "head (queue s) \<le> tail (queue s)"
    "tail (queue s) \<le> tailReservation (queue s)" by (simp_all add: queue_inv_def)
  show "queue_inv (queue ?s)" using qi dd h cas p1 by (simp add: queue_inv_def)
  show "producer_inv (queue ?s) (producers ?s j)" for j
  proof (cases "j = i")
    case True
    then show ?thesis using qi cas p1 by simp
  next
    case False
    have "producer_inv ?q (producers s j)"
      by (rule producer_inv_grow [OF system_invD(2) [OF inv, of j]]) (simp_all add: cas p1)
    with False show ?thesis by simp
  qed
  show "j = k" if "held (producers ?s j) = Some x" "held (producers ?s k) = Some x" for j k x
  proof -
    have fresh: "held (producers s l) \<noteq> Some pos" for l
      using held_bound [OF system_invD(2) [OF inv, of l], of pos] cas by auto
    have old: "l = i \<or> held (producers s l) = Some x" if "held (producers ?s l) = Some x" for l
      using that by (cases "l = i") simp_all
    have new: "x = pos" if "held (producers ?s i) = Some x"
      using that by simp
    from old [OF that(1)] old [OF that(2)] show ?thesis
    proof (elim disjE)
      assume "j = i" "k = i" then show ?thesis by simp
    next
      assume "j = i" "held (producers s k) = Some x"
      with that(1) new fresh [of k] show ?thesis by simp
    next
      assume "held (producers s j) = Some x" "k = i"
      with that(2) new fresh [of j] show ?thesis by simp
    next
      assume "held (producers s j) = Some x" "held (producers s k) = Some x"
      then show ?thesis by (rule system_invD(3) [OF inv])
    qed
  qed
  show "consumer_inv (queue ?s) (consumer ?s)"
    using consumer_inv_grow [OF system_invD(4) [OF inv], of ?q] by simp
qed

lemma store_order_counters:
  assumes "store_order q k ord = Some q'"
  shows "head q' = head q" "tail q' = tail q" "tailReservation q' = tailReservation q"
    "capacity q' = capacity q"
  using assms by (auto simp: store_order_def split: if_splits)

lemma step_write_slot:
  assumes inv: "system_inv s" and p: "producers s i = P_Reserved ord pos"
    and st: "store_order (queue s) k ord = Some q'"
  shows "system_inv (s\<lparr>queue := q', producers := (producers s)(i := P_Written ord pos)\<rparr>)"
proof -
  note c = store_order_counters [OF st]
  have q': "system_inv (s\<lparr>queue := q'\<rparr>)"
  proof (rule system_invI)
    show "queue_inv (queue (s\<lparr>queue := q'\<rparr>))"
      using system_invD(1) [OF inv] c by (simp add: queue_inv_def)
    show "producer_inv (queue (s\<lparr>queue := q'\<rparr>)) (producers (s\<lparr>queue := q'\<rparr>) j)" for j
      using producer_inv_grow [OF system_invD(2) [OF inv, of j], of q'] c by simp
    show "j = k" if "held (producers (s\<lparr>queue := q'\<rparr>) j) = Some x"
      "held (producers (s\<lparr>queue := q'\<rparr>) k) = Some x" for j k x
      using that system_invD(3) [OF inv, of j x k] by simp
    show "consumer_inv (queue (s\<lparr>queue := q'\<rparr>)) (consumer (s\<lparr>queue := q'\<rparr>))"
      using consumer_inv_grow [OF system_invD(4) [OF inv], of q'] c by simp
  qed
  have "producer_inv (queue (s\<lparr>queue := q'\<rparr>)) (P_Written ord pos)"
    using system_invD(2) [OF q', of i] p by simp
  from system_inv_producer [OF q' this, of i] p show ?thesis by simp
qed

lemma step_publish:
  assumes inv: "system_inv s" and p: "producers s i = P_Turn ord pos"
    and pos1: "in_int (pos + 1) = Some pos1"
  shows "system_inv (s\<lparr>queue := (queue s)\<lparr>tail := pos1\<rparr>,
           producers := (producers s)(i := P_Idle)\<rparr>)"
proof (rule system_invI)
  let ?q = "(queue s)\<lparr>tail := pos1\<rparr>"
  let ?s = "s\<lparr>queue := ?q, producers := (producers s)(i := P_Idle)\<rparr>"
  from pos1 have p1: "pos1 = pos + 1" by (simp add: in_int_def split: if_splits)
  from system_invD(2) [OF inv, of i] p
  have t: "tail (queue s) = pos" "pos < tailReservation (queue s)" by simp_all
  from system_invD(1) [OF inv] have qi: "head (queue s) \<le> tail (queue s)"
    "tailReservation (queue s) \<le> head (queue s) + capacity (queue s)"
    by (simp_all add: queue_inv_def)
  show "queue_inv (queue ?s)" using qi t p1 by (simp add: queue_inv_def)
  show "producer_inv (queue ?s) (producers ?s j)" for j
  proof (cases "j = i")
    case True
    then show ?thesis by simp
  next
    case False
    have hi: "held (producers s i) = Some (tail (queue s))" using p t by simp
    have "held (producers s j) \<noteq> Some (tail (queue s))"
      using system_invD(3) [OF inv, of j "tail (queue s)" i] hi False by auto
    then have "producer_inv ?q (producers s j)"
      by (rule producer_inv_publish [OF system_invD(2) [OF inv, of j]]) (simp_all add: t p1)
    with False show ?thesis by simp
  qed
  show "j = k" if "held (producers ?s j) = Some x" "held (producers ?s k) = Some x" for j k x
  proof -
    have old: "held (producers s l) = Some x" if "held (producers ?s l) = Some x" for l
      using that by (cases "l = i") simp_all
    from old [OF that(1)] old [OF that(2)] show ?thesis by (rule system_invD(3) [OF inv])
  qed
  show "consumer_inv (queue ?s) (consumer ?s)"
    using consumer_inv_grow [OF system_invD(4) [OF inv], of ?q] t p1 by simp
qed

lemma step_c_store:
  assumes inv: "system_inv s" and c: "consumer s = C_Read h ord"
    and h1: "in_int (h + 1) = Some h1"
  shows "system_inv (s\<lparr>queue := (queue s)\<lparr>head := h1\<rparr>, consumer := C_Idle\<rparr>)"
proof (rule system_invI)
  let ?q = "(queue s)\<lparr>head := h1\<rparr>"
  let ?s = "s\<lparr>queue := ?q, consumer := C_Idle\<rparr>"
  from h1 have p1: "h1 = h + 1" by (simp add: in_int_def split: if_splits)
  from system_invD(4) [OF inv] c have h: "h = head (queue s)" "h < tail (queue s)" by simp_all
  from system_invD(1) [OF inv] have qi: "tail (queue s) \<le> tailReservation (queue s)"
    "tailReservation (queue s) \<le> head (queue s) + capacity (queue s)"
    by (simp_all add: queue_inv_def)
  show "queue_inv (queue ?s)" using qi h p1 by (simp add: queue_inv_def)
  show "producer_inv (queue ?s) (producers ?s j)" for j
    using producer_inv_grow [OF system_invD(2) [OF inv, of j], of ?q] h p1 by simp
  show "j = k" if "held (producers ?s j) = Some x" "held (producers ?s k) = Some x" for j k x
    using that system_invD(3) [OF inv, of j x k] by simp
  show "consumer_inv (queue ?s) (consumer ?s)" by simp
qed

lemma step_preserves:
  assumes "step s s'" "system_inv s"
  shows "system_inv s'"
  using assms
proof (induction rule: step.induct)
  case (begin_call s i ord)
  then show ?case by (intro system_inv_producer) simp_all
next
  case (load_pos s i ord)
  then show ?case by (intro system_inv_producer) simp_all
next
  case (load_head s i ord pos)
  then show ?case by (intro system_inv_producer) simp_all
next
  case (queue_full s i ord pos h d)
  then show ?case by (intro system_inv_producer) simp_all
next
  case (cas_success s i ord pos h d pos1)
  then show ?case by (intro step_cas_success) 
next
  case (cas_failure s i ord pos h d pos1)
  then show ?case by (intro system_inv_producer) simp_all
next
  case (write_slot s i ord pos k q')
  then show ?case by (intro step_write_slot)
next
  case (spin_wait s i ord pos)
  then show ?case by simp
next
  case (take_turn s i ord pos)
  have "producer_inv (queue s) (P_Turn ord pos)"
    using system_invD(2) [OF take_turn(3), of i] take_turn(1,2) by simp
  from system_inv_producer [OF take_turn(3) this, of i] take_turn(1) show ?case by simp
next
  case (publish s i ord pos pos1)
  then show ?case by (intro step_publish)
next
  case (c_load_head s)
  then show ?case by (intro system_inv_consumer) simp_all
next
  case (c_load_tail s h)
  have "consumer_inv (queue s) (C_Loaded_Tail h (tail (queue s)))"
    using system_invD(4) [OF c_load_tail(2)] system_invD(1) [OF c_load_tail(2)] c_load_tail(1)
    by (simp add: queue_inv_def)
  with c_load_tail(2) show ?case by (rule system_inv_consumer)
next
  case (c_empty s h t)
  then show ?case by (intro system_inv_consumer) simp_all
next
  case (c_read s h t k ord)
  have "consumer_inv (queue s) (C_Read h ord)"
    using system_invD(4) [OF c_read(5)] c_read(1,2) by simp
  with c_read(5) show ?case by (rule system_inv_consumer)
next
  case (c_store s h ord h1)
  then show ?case by (intro step_c_store)
qed

lemma reachable_inv:
  assumes "reachable q0 s" "queue_inv q0"
  shows "system_inv s"
  using assms
proof (induction rule: reachable.induct)
  case start
  then show ?case by (simp add: system_inv_def)
next
  case (after s s')
  then show ?case using step_preserves by blast
qed

section \<open>The example states\<close>

lemmas run_defs =
  addOrder_def enqueue_def dequeue_def reserve_eq await_turn_eq in_int_def c_rem_def
  store_order_def load_order_def INT_MIN_def INT_MAX_def QUEUE_CAPACITY_def NUM_TICKERS_def
  fresh_Queue_def initQueue_def zero_Queue_def zero_Order_def

lemmas spec_defs =
  well_formed_def queue_inv_def below_limit_def pending_def free_slots_def upto_rec1

lemma fresh_Queue_well_formed: "well_formed fresh_Queue" "below_limit fresh_Queue" "pending fresh_Queue = []"
  by (simp_all add: run_defs spec_defs)

lemma one_order_Queue:
  "enqueue fresh_Queue sample_order = Some (one_order_Queue, True)"
  "reserve fresh_Queue = Some (fresh_Queue\<lparr>tailReservation := 1\<rparr>, Some 0)"
  "dequeue one_order_Queue = Some (one_order_Queue\<lparr>head := 1\<rparr>, Some sample_order)"
  "well_formed one_order_Queue"
  by (simp_all add: one_order_Queue_def run_defs spec_defs)

lemma crossing_book_buy:
  "well_formed (buyQueues crossing_book 7)" "below_limit (buyQueues crossing_book 7)"
  "pending (buyQueues crossing_book 7) =
     [\<lparr>type = CHR ''B'', ticker = 7, quantity = 20, price = 100\<rparr>,
      \<lparr>type = CHR ''B'', ticker = 7, quantity = 10, price = 90\<rparr>]"
  by (simp_all add: crossing_book_def fresh_book_queues run_defs spec_defs)

lemma crossing_book_sell:
  "well_formed (sellQueues crossing_book 7)" "below_limit (sellQueues crossing_book 7)"
  "pending (sellQueues crossing_book 7) =
     [\<lparr>type = CHR ''S'', ticker = 7, quantity = 15, price = 95\<rparr>,
      \<lparr>type = CHR ''S'', ticker = 7, quantity = 25, price = 100\<rparr>]"
  by (simp_all add: crossing_book_def fresh_book_queues run_defs spec_defs)

lemma one_sided_book_queues:
  "well_formed (buyQueues one_sided_book 3)" "below_limit (buyQueues one_sided_book 3)"
  "well_formed (sellQueues one_sided_book 3)" "below_limit (sellQueues one_sided_book 3)"
  "pending (buyQueues one_sided_book 3) =
     [\<lparr>type = CHR ''B'', ticker = 3, quantity = 20, price = 100\<rparr>,
      \<lparr>type = CHR ''B'', ticker = 3, quantity = 10, price = 90\<rparr>]"
  "pending (sellQueues one_sided_book 3) = []"
  "pending (sellQueues one_sided_book 4) =
     [\<lparr>type = CHR ''S'', ticker = 4, quantity = 15, price = 95\<rparr>]"
  by (simp_all add: one_sided_book_def fresh_book_queues run_defs spec_defs)

lemma mixed_book_queues:
  "well_formed (buyQueues mixed_book 5)" "below_limit (buyQueues mixed_book 5)"
  "well_formed (sellQueues mixed_book 5)" "below_limit (sellQueues mixed_book 5)"
  "pending (buyQueues mixed_book 5) =
     [\<lparr>type = CHR ''B'', ticker = 5, quantity = 20, price = 100\<rparr>,
      \<lparr>type = CHR ''B'', ticker = 5, quantity = 10, price = 5\<rparr>]"
  "pending (sellQueues mixed_book 5) =
     [\<lparr>type = CHR ''S'', ticker = 5, quantity = 15, price = 95\<rparr>,
      \<lparr>type = CHR ''S'', ticker = 5, quantity = - 4, price = 95\<rparr>,
      \<lparr>type = CHR ''S'', ticker = 5, quantity = 8, price = 2000\<rparr>]"
  by (simp_all add: mixed_book_def fresh_book_queues run_defs spec_defs)

lemma lost_order_book_queues:
  "well_formed (buyQueues lost_order_book 0)" "below_limit (buyQueues lost_order_book 0)"
  "well_formed (sellQueues lost_order_book 0)" "below_limit (sellQueues lost_order_book 0)"
  "pending (buyQueues lost_order_book 0) =
     [\<lparr>type = CHR ''B'', ticker = 0, quantity = 1, price = 10\<rparr>]"
  "pending (sellQueues lost_order_book 0) = []"
  "tail (buyQueues lost_order_book 0) = 1" "tailReservation (buyQueues lost_order_book 0) = 1"
  "capacity (buyQueues lost_order_book 0) = 128"
  "tailReservation (sellQueues lost_order_book 0) = 0"
  by (simp_all add: lost_order_book_def fresh_book_queues run_defs spec_defs)

lemma flood_orders:
  "length flood = 128" "\<forall>call\<in>set flood. fst call = CHR ''B'' \<and> fst (snd call) = 0"
  "map order_of flood = replicate 128 \<lparr>type = CHR ''B'', ticker = 0, quantity = 5, price = 20\<rparr>"
  by (simp_all add: flood_def order_of_def)

lemma flooded_book_queues:
  "matchOrders_drain lost_order_book 0 =
     Some (drained_book,
           [\<lparr>type = CHR ''B'', ticker = 0, quantity = 1, price = 10\<rparr>], [])"
  "\<exists>ms. addOrders drained_book flood = Some (flooded_book, ms)"
  "well_formed (buyQueues flooded_book 0)" "well_formed (sellQueues flooded_book 0)"
  "free_slots (buyQueues flooded_book 0) = 0"
  "tailReservation (buyQueues flooded_book 0) \<le> 129"
  "tailReservation (sellQueues flooded_book 0) = 0"
  "pending (buyQueues flooded_book 0) =
     replicate 128 \<lparr>type = CHR ''B'', ticker = 0, quantity = 5, price = 20\<rparr>"
proof -
  let ?b = "buyQueues lost_order_book 0" and ?s = "sellQueues lost_order_book 0"
  let ?book1 = "lost_order_book\<lparr>buyQueues := (buyQueues lost_order_book)(0 := ?b\<lparr>head := tail ?b\<rparr>),
                  sellQueues := (sellQueues lost_order_book)(0 := ?s\<lparr>head := tail ?s\<rparr>)\<rparr>"
  have t: "(0::int) \<le> 0" "(0::int) < NUM_TICKERS" by (simp_all add: NUM_TICKERS_def)
  from matchOrders_drain_pending [OF t lost_order_book_queues(1,3)]
  have d: "matchOrders_drain lost_order_book 0 = Some (?book1, pending ?b, pending ?s)" .
  then show "matchOrders_drain lost_order_book 0 =
     Some (drained_book,
           [\<lparr>type = CHR ''B'', ticker = 0, quantity = 1, price = 10\<rparr>], [])"
    by (simp add: lost_order_book_queues drained_book_def)
  have b1: "well_formed (buyQueues ?book1 0)" "free_slots (buyQueues ?book1 0) = 128"
    "pending (buyQueues ?book1 0) = []" "tailReservation (buyQueues ?book1 0) = 1"
    "tailReservation (buyQueues ?book1 0) + int (length flood) \<le> INT_MAX"
    using lost_order_book_queues(1)
    by (simp_all add: lost_order_book_queues well_formed_def queue_inv_def free_slots_def
        pending_empty flood_orders INT_MAX_def)
  have s1: "well_formed (sellQueues ?book1 0)" "tailReservation (sellQueues ?book1 0) = 0"
    using lost_order_book_queues(3)
    by (simp_all add: lost_order_book_queues well_formed_def queue_inv_def)
  from addOrders_buy [OF t b1(1,5) flood_orders(2)] obtain book2 ms where
    a: "addOrders ?book1 flood = Some (book2, ms)" and
    b2: "well_formed (buyQueues book2 0)"
      "pending (buyQueues book2 0) =
         pending (buyQueues ?book1 0) @ take (free_slots (buyQueues ?book1 0)) (map order_of flood)"
      "free_slots (buyQueues book2 0) = free_slots (buyQueues ?book1 0) - length flood"
      "tailReservation (buyQueues book2 0) \<le> tailReservation (buyQueues ?book1 0) + int (length flood)"
      "sellQueues book2 = sellQueues ?book1"
    by blast
  from a d have f: "flooded_book = book2" by (simp add: flooded_book_def drained_book_def)
  from a d f show "\<exists>ms. addOrders drained_book flood =
      Some (flooded_book, ms)"
    by (simp add: drained_book_def)
  from b2 s1 show "well_formed (buyQueues flooded_book 0)" "well_formed (sellQueues flooded_book 0)"
    "tailReservation (sellQueues flooded_book 0) = 0"
    by (simp_all add: f)
  from b2(3) b1(2) show "free_slots (buyQueues flooded_book 0) = 0"
    by (simp add: f flood_orders(1))
  from b2(4) b1(4) show "tailReservation (buyQueues flooded_book 0) \<le> 129"
    by (simp add: f flood_orders(1))
  from b2(2) show "pending (buyQueues flooded_book 0) =
     replicate 128 \<lparr>type = CHR ''B'', ticker = 0, quantity = 5, price = 20\<rparr>"
    using b1(2,3) by (simp add: f flood_orders(3))
qed

lemma one_sided_book_counters:
  "tail (buyQueues one_sided_book 3) = 2" "tailReservation (buyQueues one_sided_book 3) = 2"
  "capacity (buyQueues one_sided_book 3) = 128"
  "tailReservation (sellQueues one_sided_book 3) = 0"
  by (simp_all add: one_sided_book_def fresh_book_queues run_defs spec_defs)

lemma rush_orders:
  "length rush = 127" "\<forall>call\<in>set rush. fst call = CHR ''B'' \<and> fst (snd call) = 3"
  "map order_of rush = replicate 127 \<lparr>type = CHR ''B'', ticker = 3, quantity = 5, price = 20\<rparr>"
  by (simp_all add: rush_def order_of_def)

lemma rushed_book_queues:
  "matchOrders_drain one_sided_book 3 =
     Some (drained_one_sided_book,
           [\<lparr>type = CHR ''B'', ticker = 3, quantity = 20, price = 100\<rparr>,
            \<lparr>type = CHR ''B'', ticker = 3, quantity = 10, price = 90\<rparr>], [])"
  "\<exists>ms. addOrders drained_one_sided_book rush = Some (rushed_book, ms)"
  "well_formed (buyQueues rushed_book 3)" "well_formed (sellQueues rushed_book 3)"
  "free_slots (buyQueues rushed_book 3) = 1"
  "tailReservation (buyQueues rushed_book 3) \<le> 129"
  "tailReservation (sellQueues rushed_book 3) = 0"
  "pending (buyQueues rushed_book 3) =
     replicate 127 \<lparr>type = CHR ''B'', ticker = 3, quantity = 5, price = 20\<rparr>"
proof -
  let ?b = "buyQueues one_sided_book 3" and ?s = "sellQueues one_sided_book 3"
  let ?book1 = "one_sided_book\<lparr>buyQueues := (buyQueues one_sided_book)(3 := ?b\<lparr>head := tail ?b\<rparr>),
                  sellQueues := (sellQueues one_sided_book)(3 := ?s\<lparr>head := tail ?s\<rparr>)\<rparr>"
  have t: "(0::int) \<le> 3" "(3::int) < NUM_TICKERS" by (simp_all add: NUM_TICKERS_def)
  from matchOrders_drain_pending [OF t one_sided_book_queues(1,3)]
  have d: "matchOrders_drain one_sided_book 3 = Some (?book1, pending ?b, pending ?s)" .
  then show "matchOrders_drain one_sided_book 3 =
     Some (drained_one_sided_book,
           [\<lparr>type = CHR ''B'', ticker = 3, quantity = 20, price = 100\<rparr>,
            \<lparr>type = CHR ''B'', ticker = 3, quantity = 10, price = 90\<rparr>], [])"
    by (simp add: one_sided_book_queues drained_one_sided_book_def)
  have b1: "well_formed (buyQueues ?book1 3)" "free_slots (buyQueues ?book1 3) = 128"
    "pending (buyQueues ?book1 3) = []" "tailReservation (buyQueues ?book1 3) = 2"
    "tailReservation (buyQueues ?book1 3) + int (length rush) \<le> INT_MAX"
    using one_sided_book_queues(1)
    by (simp_all add: one_sided_book_counters well_formed_def queue_inv_def free_slots_def
        pending_empty rush_orders INT_MAX_def)
  have s1: "well_formed (sellQueues ?book1 3)" "tailReservation (sellQueues ?book1 3) = 0"
    using one_sided_book_queues(3)
    by (simp_all add: one_sided_book_counters well_formed_def queue_inv_def)
  from addOrders_buy [OF t b1(1,5) rush_orders(2)] obtain book2 ms where
    a: "addOrders ?book1 rush = Some (book2, ms)" and
    b2: "well_formed (buyQueues book2 3)"
      "pending (buyQueues book2 3) =
         pending (buyQueues ?book1 3) @ take (free_slots (buyQueues ?book1 3)) (map order_of rush)"
      "free_slots (buyQueues book2 3) = free_slots (buyQueues ?book1 3) - length rush"
      "tailReservation (buyQueues book2 3) \<le> tailReservation (buyQueues ?book1 3) + int (length rush)"
      "sellQueues book2 = sellQueues ?book1"
    by blast
  from a d have f: "rushed_book = book2" by (simp add: rushed_book_def drained_one_sided_book_def)
  from a d f show "\<exists>ms. addOrders drained_one_sided_book rush =
      Some (rushed_book, ms)"
    by (simp add: drained_one_sided_book_def)
  from b2 s1 show "well_formed (buyQueues rushed_book 3)" "well_formed (sellQueues rushed_book 3)"
    "tailReservation (sellQueues rushed_book 3) = 0"
    by (simp_all add: f)
  from b2(3) b1(2) show "free_slots (buyQueues rushed_book 3) = 1"
    by (simp add: f rush_orders(1))
  from b2(4) b1(4) show "tailReservation (buyQueues rushed_book 3) \<le> 129"
    by (simp add: f rush_orders(1))
  from b2(2) show "pending (buyQueues rushed_book 3) =
     replicate 127 \<lparr>type = CHR ''B'', ticker = 3, quantity = 5, price = 20\<rparr>"
    using b1(2,3) by (simp add: f rush_orders(3))
qed

declare reserve_eq [code] await_turn_eq [code]

lemma reserved_system_reachable: "reachable fresh_Queue reserved_system"
proof -
  let ?s = "\<lambda>p. \<lparr>queue = fresh_Queue, producers = (\<lambda>i. P_Idle)(0 := p), consumer = C_Idle\<rparr>"
  have q: "tailReservation fresh_Queue = 0" "head fresh_Queue = 0" "capacity fresh_Queue = 128"
    by (simp_all add: fresh_Queue_def initQueue_def QUEUE_CAPACITY_def)
  from reachable.after [OF reachable.start step.begin_call [where i = 0 and ord = sample_order]]
  have "reachable fresh_Queue (?s (P_Start sample_order))" by simp
  from reachable.after [OF this step.load_pos [where i = 0 and ord = sample_order]]
  have "reachable fresh_Queue (?s (P_Loaded_Pos sample_order 0))" by (simp add: q)
  from reachable.after [OF this step.load_head [where i = 0 and ord = sample_order and pos = 0]]
  have "reachable fresh_Queue (?s (P_Loaded_Head sample_order 0 0))" by (simp add: q)
  from reachable.after [OF this step.cas_success [where i = 0 and ord = sample_order and pos = 0
      and h = 0 and d = 0 and ?pos1.0 = 1]]
  show ?thesis by (simp add: q reserved_system_def in_int_def INT_MIN_def INT_MAX_def)
qed

section \<open>The properties of the specification\<close>

text \<open>
  C1. A pass over well-formed queues of one ticker that hold the buy orders (price 100,
  quantity 20), (price 90, quantity 10) and the sell orders (price 95, quantity 15),
  (price 100, quantity 25), in this order: the pass prints the trade of 15 at 95 and then
  the trade of 5 at 100, each at the price of the sell order. After it the buy queue holds
  the second buy order alone (price 90, quantity 10) and the sell queue the second sell
  order alone, with quantity 20 (price 100).
\<close>

theorem crossing_example:
  assumes "0 \<le> tkr" "tkr < NUM_TICKERS"
    and "well_formed (buyQueues book tkr)" "below_limit (buyQueues book tkr)"
    and "well_formed (sellQueues book tkr)" "below_limit (sellQueues book tkr)"
    and buys: "map (\<lambda>ord. (price ord, quantity ord)) (pending (buyQueues book tkr)) =
                 [(100, 20), (90, 10)]"
    and sells: "map (\<lambda>ord. (price ord, quantity ord)) (pending (sellQueues book tkr)) =
                  [(95, 15), (100, 25)]"
  shows "\<exists>book'. matchOrders book tkr = Some (book', [Matched tkr 15 95, Matched tkr 5 100]) \<and>
           pending (buyQueues book' tkr) = [pending (buyQueues book tkr) ! 1] \<and>
           pending (sellQueues book' tkr) = [(pending (sellQueues book tkr) ! 1)\<lparr>quantity := 20\<rparr>] \<and>
           map (\<lambda>ord. (price ord, quantity ord)) (pending (buyQueues book' tkr)) = [(90, 10)] \<and>
           map (\<lambda>ord. (price ord, quantity ord)) (pending (sellQueues book' tkr)) = [(100, 20)]"
proof -
  let ?buys = "pending (buyQueues book tkr)" and ?sells = "pending (sellQueues book tkr)"
  note b = two_orders [OF buys] and s = two_orders [OF sells]
  have pass: "pass tkr ?buys ?sells = ([?buys ! 1], [(?sells ! 1)\<lparr>quantity := 20\<rparr>],
                [Matched tkr 15 95, Matched tkr 5 100])"
    by (subst b, subst s, subst pass_example, subst (3) b, subst (3) s) simp
  have "castable (?sells @ ?buys)"
    by (subst b, subst s) (simp add: castable_def to_int_def in_int_def INT_MIN_def INT_MAX_def)
  then have "?buys = [] \<or> ?sells = [] \<or> castable (?sells @ ?buys)" by simp
  from matchOrders_pass [OF assms(1-6) this pass] obtain book' where
    "matchOrders book tkr = Some (book', [Matched tkr 15 95, Matched tkr 5 100])"
    "pending (buyQueues book' tkr) = [?buys ! 1]"
    "pending (sellQueues book' tkr) = [(?sells ! 1)\<lparr>quantity := 20\<rparr>]"
    by blast
  moreover have "map (\<lambda>ord. (price ord, quantity ord)) [?buys ! 1] = [(90, 10)]"
    "map (\<lambda>ord. (price ord, quantity ord)) [(?sells ! 1)\<lparr>quantity := 20\<rparr>] = [(100, 20)]"
    by (subst b, simp) (subst s, simp)
  ultimately show ?thesis by simp
qed

theorem crossing_example_witness:
  "\<exists>book'. matchOrders crossing_book 7 = Some (book', [Matched 7 15 95, Matched 7 5 100]) \<and>
     pending (buyQueues book' 7) = [\<lparr>type = CHR ''B'', ticker = 7, quantity = 10, price = 90\<rparr>] \<and>
     pending (sellQueues book' 7) = [\<lparr>type = CHR ''S'', ticker = 7, quantity = 20, price = 100\<rparr>]"
proof -
  have h: "(0::int) \<le> 7" "(7::int) < NUM_TICKERS"
    "map (\<lambda>ord. (price ord, quantity ord)) (pending (buyQueues crossing_book 7)) =
       [(100, 20), (90, 10)]"
    "map (\<lambda>ord. (price ord, quantity ord)) (pending (sellQueues crossing_book 7)) =
       [(95, 15), (100, 25)]"
    by (simp_all add: NUM_TICKERS_def crossing_book_buy crossing_book_sell)
  from crossing_example [OF h(1,2) crossing_book_buy(1,2) crossing_book_sell(1,2) h(3,4)]
  show ?thesis
    by (auto simp: crossing_book_buy crossing_book_sell)
qed

text \<open>
  C2. A pass over well-formed queues of one ticker, run on its own, in which every
  drained order has a positive quantity and an integer price between 10 and 1000: the pass
  returns, it prints trades only, and the total quantity in the two queues of the ticker
  after the pass is the total before it less twice the total quantity of the printed
  trades.
\<close>

theorem quantity_conservation:
  assumes "0 \<le> tkr" "tkr < NUM_TICKERS"
    and "well_formed (buyQueues book tkr)" "below_limit (buyQueues book tkr)"
    and "well_formed (sellQueues book tkr)" "below_limit (sellQueues book tkr)"
    and valid: "\<forall>ord\<in>set (pending (buyQueues book tkr)) \<union> set (pending (sellQueues book tkr)).
                  valid_order ord"
  shows "\<exists>book' out. matchOrders book tkr = Some (book', out) \<and> only_trades tkr out \<and>
           total_quantity (pending (buyQueues book' tkr)) +
           total_quantity (pending (sellQueues book' tkr)) =
           total_quantity (pending (buyQueues book tkr)) +
           total_quantity (pending (sellQueues book tkr)) - 2 * total_matched out"
proof -
  let ?buys = "pending (buyQueues book tkr)" and ?sells = "pending (sellQueues book tkr)"
  obtain rb rs out where pass: "pass tkr ?buys ?sells = (rb, rs, out)"
    by (metis prod_cases3)
  from valid have m: "\<forall>ord\<in>set (?sells @ ?buys). matchable ord"
    by (auto intro: valid_order_matchable)
  then have "?buys = [] \<or> ?sells = [] \<or> castable (?sells @ ?buys)"
    by (simp add: matchable_castable)
  from matchOrders_pass [OF assms(1-6) this pass] obtain book' where
    run: "matchOrders book tkr = Some (book', out)" "pending (buyQueues book' tkr) = rb"
      "pending (sellQueues book' tkr) = rs"
    by blast
  have "only_trades tkr out \<and>
        total_quantity rb + total_quantity rs =
        total_quantity ?buys + total_quantity ?sells - 2 * total_matched out"
  proof (cases "?buys = [] \<or> ?sells = []")
    case True
    with pass show ?thesis
      by (auto simp: pass_def only_trades_def total_matched_def)
  next
    case False
    from m have "filter matchable ?buys = ?buys" "filter matchable ?sells = ?sells"
      by simp_all
    with pass_crossing [OF _ _ pass] False show ?thesis by simp
  qed
  with run show ?thesis by auto
qed

theorem quantity_conservation_witness:
  "\<exists>book' out. matchOrders crossing_book 7 = Some (book', out) \<and> only_trades 7 out \<and>
     total_quantity (pending (buyQueues book' 7)) + total_quantity (pending (sellQueues book' 7)) =
     70 - 2 * total_matched out"
proof -
  have "(0::int) \<le> 7" "(7::int) < NUM_TICKERS"
    "\<forall>ord\<in>set (pending (buyQueues crossing_book 7)) \<union> set (pending (sellQueues crossing_book 7)).
       valid_order ord"
    by (simp_all add: NUM_TICKERS_def crossing_book_buy crossing_book_sell valid_order_def)
  from quantity_conservation [OF this(1,2) crossing_book_buy(1,2) crossing_book_sell(1,2) this(3)]
  show ?thesis
    by (simp add: crossing_book_buy crossing_book_sell total_quantity_def)
qed

text \<open>
  C3, as the code has it. \<^verbatim>\<open>addOrder\<close> checks neither the quantity nor the price: for a ticker
  of the book and the type \<^verbatim>\<open>'B'\<close> or \<^verbatim>\<open>'S'\<close>, an order with any quantity and any price is
  appended to the queue of its side when that queue, well-formed, has a free slot, and is
  reported as added; when the queue is full the book stays as it was and the full queue is
  reported.
\<close>

theorem addOrder_checks_nothing:
  assumes "orderType = CHR ''B'' \<or> orderType = CHR ''S''" "0 \<le> tkr" "tkr < NUM_TICKERS"
    and "well_formed (queues_of orderType book tkr)"
    and "tailReservation (queues_of orderType book tkr) < INT_MAX"
  shows "\<exists>book' m. addOrder book orderType tkr qty prc = Some (book', m) \<and>
           (if 0 < free_slots (queues_of orderType book tkr)
            then m = Order_Added orderType tkr qty prc \<and>
                 pending (queues_of orderType book' tkr) =
                   pending (queues_of orderType book tkr) @
                   [\<lparr>type = orderType, ticker = tkr, quantity = qty, price = prc\<rparr>]
            else m = Queue_Full tkr \<and> book' = book)"
proof (cases "0 < free_slots (queues_of orderType book tkr)")
  case True
  let ?ord = "\<lparr>type = orderType, ticker = tkr, quantity = qty, price = prc\<rparr>"
  from True have "tailReservation (queues_of orderType book tkr) - head (queues_of orderType book tkr)
      < capacity (queues_of orderType book tkr)"
    by (simp add: free_slots_def)
  from enqueue_accepts [OF assms(4) this assms(5), of ?ord] obtain q where
    e: "enqueue (queues_of orderType book tkr) ?ord = Some (q, True)" and
    p: "pending q = pending (queues_of orderType book tkr) @ [?ord]"
    by blast
  from addOrder_enqueue [OF assms(1-3) e] p True show ?thesis by auto
next
  case False
  with assms(4) have "enqueue (queues_of orderType book tkr)
      \<lparr>type = orderType, ticker = tkr, quantity = qty, price = prc\<rparr> =
      Some (queues_of orderType book tkr, False)"
    by (simp add: enqueue_full free_slots_def)
  with assms(1-3) have "addOrder book orderType tkr qty prc = Some (book, Queue_Full tkr)"
    by (auto simp: addOrder_def queues_of_def)
  with False show ?thesis by simp
qed

theorem addOrder_checks_nothing_witness:
  "\<exists>book'. addOrder fresh_book (CHR ''S'') 9 (- 5) 5000 =
      Some (book', Order_Added (CHR ''S'') 9 (- 5) 5000) \<and>
     pending (sellQueues book' 9) =
       [\<lparr>type = CHR ''S'', ticker = 9, quantity = - 5, price = 5000\<rparr>]"
proof -
  have h: "CHR ''S'' = CHR ''B'' \<or> CHR ''S'' = CHR ''S''" "(0::int) \<le> 9" "(9::int) < NUM_TICKERS"
    "well_formed (queues_of (CHR ''S'') fresh_book 9)"
    "tailReservation (queues_of (CHR ''S'') fresh_book 9) < INT_MAX"
    "0 < free_slots (queues_of (CHR ''S'') fresh_book 9)"
    "pending (queues_of (CHR ''S'') fresh_book 9) = []"
    by (simp_all add: queues_of_def fresh_book_queues run_defs spec_defs)
  from addOrder_checks_nothing [OF h(1-5), of "- 5" 5000] h(6,7) show ?thesis
    by (auto simp: queues_of_def)
qed

text \<open>
  C3 as the specification states it fails: on the book that \<^verbatim>\<open>initOrderBook\<close> leaves, a buy
  order with quantity -5 and a buy order with price 5, both below the domain, are reported
  as added and are in the queue afterwards.
\<close>

theorem invalid_order_accepted:
  "buy_orders 0 fresh_book = [] \<and>
   map_option snd (addOrder fresh_book (CHR ''B'') 0 (- 5) 50) =
     Some (Order_Added (CHR ''B'') 0 (- 5) 50) \<and>
   map_option (buy_orders 0 \<circ> fst) (addOrder fresh_book (CHR ''B'') 0 (- 5) 50) =
     Some [\<lparr>type = CHR ''B'', ticker = 0, quantity = - 5, price = 50\<rparr>] \<and>
   map_option snd (addOrder fresh_book (CHR ''B'') 0 30 5) =
     Some (Order_Added (CHR ''B'') 0 30 5) \<and>
   map_option (buy_orders 0 \<circ> fst) (addOrder fresh_book (CHR ''B'') 0 30 5) =
     Some [\<lparr>type = CHR ''B'', ticker = 0, quantity = 30, price = 5\<rparr>]"
  by (simp add: buy_orders_def fresh_book_queues run_defs spec_defs)

text \<open>
  C4. On a well-formed queue, in a sequence of \<^verbatim>\<open>enqueue\<close> calls with no \<^verbatim>\<open>dequeue\<close> between
  them (and counters that stay below \<^verbatim>\<open>INT_MAX\<close>), every call returns, the calls that find a
  free slot return \<^verbatim>\<open>true\<close> and all later ones \<^verbatim>\<open>false\<close>; so every call from the
  \<open>(capacity + 1)\<close>-th on returns \<^verbatim>\<open>false\<close>. After every prefix of the sequence the occupancy
  \<open>tailReservation - head\<close> is at most the capacity. An \<^verbatim>\<open>enqueue\<close> that returns \<^verbatim>\<open>false\<close>, on
  any queue, returns the queue as it was.
\<close>

theorem capacity_bound:
  assumes "well_formed q" "tailReservation q + int (length os) \<le> INT_MAX"
  shows "\<exists>q' rs. enqueue_seq q os = Some (q', rs) \<and> length rs = length os \<and>
           (\<forall>k<length os. rs ! k \<longleftrightarrow> k < free_slots q) \<and>
           (\<forall>k<length os. capacity q \<le> int k \<longrightarrow> \<not> rs ! k) \<and>
           (\<forall>n\<le>length os. \<exists>qn rn. enqueue_seq q (take n os) = Some (qn, rn) \<and>
              tailReservation qn - head qn \<le> capacity qn) \<and>
           (\<forall>q0 ord q1. enqueue q0 ord = Some (q1, False) \<longrightarrow> q1 = q0)"
proof -
  let ?rs = "replicate (min (length os) (free_slots q)) True @
             replicate (length os - free_slots q) False"
  from enqueue_seq_results [OF assms] obtain q' where
    run: "enqueue_seq q os = Some (q', ?rs)"
    by blast
  have len: "length ?rs = length os" by simp
  have nth: "?rs ! k \<longleftrightarrow> k < free_slots q" if "k < length os" for k
    using that by (simp add: nth_append)
  have late: "\<not> ?rs ! k" if "k < length os" "capacity q \<le> int k" for k
  proof -
    from assms(1) have "head q \<le> tailReservation q" by (simp add: well_formed_def queue_inv_def)
    with that(2) have "free_slots q \<le> k" by (simp add: free_slots_def)
    with nth [OF that(1)] show ?thesis by simp
  qed
  have prefix: "\<exists>qn rn. enqueue_seq q (take n os) = Some (qn, rn) \<and>
                  tailReservation qn - head qn \<le> capacity qn" if "n \<le> length os" for n
  proof -
    from that assms(2) have "tailReservation q + int (length (take n os)) \<le> INT_MAX" by simp
    from enqueue_seq_results [OF assms(1) this] obtain qn rn where
      "enqueue_seq q (take n os) = Some (qn, rn)" "well_formed qn"
      by blast
    then show ?thesis by (auto simp: well_formed_def queue_inv_def)
  qed
  from run len nth late prefix enqueue_rejects_unchanged show ?thesis by blast
qed

theorem capacity_bound_witness:
  "\<exists>q' rs. enqueue_seq fresh_Queue (replicate 129 sample_order) = Some (q', rs) \<and>
     length rs = 129 \<and> rs ! 127 \<and> \<not> rs ! 128 \<and> capacity fresh_Queue = 128"
proof -
  have h: "well_formed fresh_Queue"
    "tailReservation fresh_Queue + int (length (replicate 129 sample_order)) \<le> INT_MAX"
    by (simp_all add: run_defs spec_defs)
  have f: "free_slots fresh_Queue = 128" "capacity fresh_Queue = 128"
    by (simp_all add: run_defs spec_defs)
  from capacity_bound [OF h] obtain q' rs where
    "enqueue_seq fresh_Queue (replicate 129 sample_order) = Some (q', rs)"
    "length rs = length (replicate 129 sample_order)"
    "\<forall>k<length (replicate 129 sample_order). rs ! k \<longleftrightarrow> k < free_slots fresh_Queue"
    by blast
  with f show ?thesis by simp
qed

text \<open>
  C5. A sequence of \<^verbatim>\<open>enqueue\<close> and \<^verbatim>\<open>dequeue\<close> calls on a well-formed queue (with counters that
  stay below \<^verbatim>\<open>INT_MAX\<close>) returns, and so does the drain that follows it and leaves the queue
  empty. The orders that the \<^verbatim>\<open>dequeue\<close> calls and the drain returned, in this order, are the
  orders that were in the queue at the start followed by the orders whose \<^verbatim>\<open>enqueue\<close>
  returned \<^verbatim>\<open>true\<close>, in the order of the calls: nothing is lost, doubled or reordered. On a
  queue that starts empty the two lists, and so their multisets, are equal.
\<close>

theorem no_loss_fifo:
  assumes "well_formed q" "tailReservation q + int (length ops) \<le> INT_MAX"
  shows "\<exists>q1 accepted dequeued q2 rest.
           run q ops = Some (q1, accepted, dequeued) \<and> drain q1 [] = Some (q2, rest) \<and>
           pending q2 = [] \<and> dequeued @ rest = pending q @ accepted \<and>
           mset (dequeued @ rest) = mset (pending q) + mset accepted \<and>
           (pending q = [] \<longrightarrow> dequeued @ rest = accepted \<and> mset (dequeued @ rest) = mset accepted)"
proof -
  from run_fifo [OF assms] obtain q1 accepted dequeued where
    r: "run q ops = Some (q1, accepted, dequeued)" and wf: "well_formed q1" and
    eq: "pending q @ accepted = dequeued @ pending q1"
    by blast
  from wf have "int (length ([]::Order list)) + (tail q1 - head q1) \<le> QUEUE_CAPACITY"
    by (simp add: well_formed_def queue_inv_def)
  from drain_pending [OF wf this] have d: "drain q1 [] = Some (q1\<lparr>head := tail q1\<rparr>, pending q1)"
    by simp
  have e: "pending (q1\<lparr>head := tail q1\<rparr>) = []" by (simp add: pending_empty)
  have "mset (dequeued @ pending q1) = mset (pending q) + mset accepted"
    using eq [symmetric] by simp
  with r d e eq show ?thesis by auto
qed

theorem no_loss_fifo_witness:
  "\<exists>q1 dequeued q2 rest.
     run fresh_Queue sample_ops =
       Some (q1, [sample_order, sample_order\<lparr>quantity := 7\<rparr>, sample_order\<lparr>quantity := 9\<rparr>,
                  sample_order], dequeued) \<and>
     drain q1 [] = Some (q2, rest) \<and> pending q2 = [] \<and>
     dequeued @ rest =
       [sample_order, sample_order\<lparr>quantity := 7\<rparr>, sample_order\<lparr>quantity := 9\<rparr>, sample_order]"
proof -
  have h: "well_formed fresh_Queue"
    "tailReservation fresh_Queue + int (length sample_ops) \<le> INT_MAX"
    "pending fresh_Queue = []"
    by (simp_all add: sample_ops_def run_defs spec_defs)
  from no_loss_fifo [OF h(1,2)] obtain q1 accepted dequeued q2 rest where
    r: "run fresh_Queue sample_ops = Some (q1, accepted, dequeued)"
    "drain q1 [] = Some (q2, rest)" "pending q2 = []"
    "pending fresh_Queue = [] \<longrightarrow> dequeued @ rest = accepted"
    by blast
  have "map_option (fst \<circ> snd) (run fresh_Queue sample_ops) =
          Some [sample_order, sample_order\<lparr>quantity := 7\<rparr>, sample_order\<lparr>quantity := 9\<rparr>,
                sample_order]"
    by code_simp
  with r h(3) show ?thesis by simp
qed

text \<open>
  C6, as the code has it. When one side of a ticker has no order, a pass over well-formed
  queues that runs with no call of a producer between its drain and its re-enqueue (a call
  of \<^verbatim>\<open>matchOrders\<close> on its own) prints no trade, leaves in each of the two queues of the
  ticker the orders it held, in their order and with their quantities and prices, and
  leaves every queue of every other ticker as it was.
\<close>

theorem empty_side_noop:
  assumes "0 \<le> tkr" "tkr < NUM_TICKERS"
    and "well_formed (buyQueues book tkr)" "below_limit (buyQueues book tkr)"
    and "well_formed (sellQueues book tkr)" "below_limit (sellQueues book tkr)"
    and "pending (buyQueues book tkr) = [] \<or> pending (sellQueues book tkr) = []"
  shows "\<exists>book'. matchOrders book tkr = Some (book', []) \<and>
           pending (buyQueues book' tkr) = pending (buyQueues book tkr) \<and>
           pending (sellQueues book' tkr) = pending (sellQueues book tkr) \<and>
           (\<forall>t. t \<noteq> tkr \<longrightarrow> buyQueues book' t = buyQueues book t \<and>
                              sellQueues book' t = sellQueues book t)"
proof -
  from assms(7) have "pending (buyQueues book tkr) = [] \<or> pending (sellQueues book tkr) = [] \<or>
      castable (pending (sellQueues book tkr) @ pending (buyQueues book tkr))"
    by blast
  from matchOrders_pass [OF assms(1-6) this pass_empty_side [OF assms(7)]]
  show ?thesis by blast
qed

theorem empty_side_noop_witness:
  "\<exists>book'. matchOrders one_sided_book 3 = Some (book', []) \<and>
     pending (buyQueues book' 3) =
       [\<lparr>type = CHR ''B'', ticker = 3, quantity = 20, price = 100\<rparr>,
        \<lparr>type = CHR ''B'', ticker = 3, quantity = 10, price = 90\<rparr>] \<and>
     pending (sellQueues book' 3) = [] \<and>
     pending (sellQueues book' 4) =
       [\<lparr>type = CHR ''S'', ticker = 4, quantity = 15, price = 95\<rparr>]"
proof -
  have "(0::int) \<le> 3" "(3::int) < NUM_TICKERS"
    "pending (buyQueues one_sided_book 3) = [] \<or> pending (sellQueues one_sided_book 3) = []"
    by (simp_all add: NUM_TICKERS_def one_sided_book_queues)
  from empty_side_noop [OF this(1,2) one_sided_book_queues(1-4) this(3)]
  obtain book' where "matchOrders one_sided_book 3 = Some (book', [])"
    "pending (buyQueues book' 3) = pending (buyQueues one_sided_book 3)"
    "pending (sellQueues book' 3) = pending (sellQueues one_sided_book 3)"
    "sellQueues book' 4 = sellQueues one_sided_book 4"
    by force
  then show ?thesis by (simp add: one_sided_book_queues)
qed

text \<open>
  C6 as the specification states it, for every pass, fails on this schedule. The buy queue
  of ticker 3 holds two orders (quantity 20 at 100, quantity 10 at 90) and the sell queue
  none. The matcher drains both queues; a producer then submits 127 buy orders for
  ticker 3; the matcher re-enqueues the two drained orders and ignores the results. The
  pass prints no trade, but the buy queue afterwards holds the producer's 127 orders
  followed by the first drained order: the second drained order was not re-enqueued, since
  the queue was full, and the first is no longer at the front.
\<close>

theorem empty_side_order_dropped:
  "buy_orders 3 one_sided_book =
     [\<lparr>type = CHR ''B'', ticker = 3, quantity = 20, price = 100\<rparr>,
      \<lparr>type = CHR ''B'', ticker = 3, quantity = 10, price = 90\<rparr>] \<and>
   pending (sellQueues one_sided_book 3) = [] \<and>
   map_option (snd \<circ> snd) (matchOrders_interleaved one_sided_book 3 rush) = Some [] \<and>
   map_option (buy_orders 3 \<circ> fst) (matchOrders_interleaved one_sided_book 3 rush) =
     Some (replicate 127 \<lparr>type = CHR ''B'', ticker = 3, quantity = 5, price = 20\<rparr> @
           [\<lparr>type = CHR ''B'', ticker = 3, quantity = 20, price = 100\<rparr>])"
proof -
  let ?o1 = "\<lparr>type = CHR ''B'', ticker = 3, quantity = 20, price = 100\<rparr>"
  let ?o2 = "\<lparr>type = CHR ''B'', ticker = 3, quantity = 10, price = 90\<rparr>"
  have t: "(0::int) \<le> 3" "(3::int) < NUM_TICKERS" by (simp_all add: NUM_TICKERS_def)
  have h: "tailReservation (buyQueues rushed_book 3) + int (length [?o1, ?o2]) \<le> INT_MAX"
    "tailReservation (sellQueues rushed_book 3) + int (length ([]::Order list)) \<le> INT_MAX"
    "[?o1, ?o2] = [] \<or> ([]::Order list) = [] \<or> castable ([] @ [?o1, ?o2])"
    "pass 3 [?o1, ?o2] [] = ([?o1, ?o2], [], [])"
    using rushed_book_queues(6)
    by (simp_all add: INT_MAX_def rushed_book_queues(7) pass_def)
  from matchOrders_publish_take [OF t rushed_book_queues(3) h(1) rushed_book_queues(4) h(2-4)]
  obtain book3 where
    p: "matchOrders_publish rushed_book 3 [?o1, ?o2] [] = Some (book3, [])"
      "pending (buyQueues book3 3) =
         replicate 127 \<lparr>type = CHR ''B'', ticker = 3, quantity = 5, price = 20\<rparr> @ [?o1]"
    by (auto simp: rushed_book_queues(5,8))
  from rushed_book_queues(2) obtain ms where
    a: "addOrders drained_one_sided_book rush = Some (rushed_book, ms)"
    by blast
  have i: "matchOrders_interleaved one_sided_book 3 rush = Some (book3, ms, [])"
    by (simp add: matchOrders_interleaved_def rushed_book_queues(1) a p)
  with p show ?thesis
    by (simp add: buy_orders_def one_sided_book_queues)
qed

text \<open>
  C7, as the code has it. After the drain, \<^verbatim>\<open>matchOrders\<close> enqueues the orders that are left
  (of at most \<^verbatim>\<open>QUEUE_CAPACITY\<close> drained orders on each side) and ignores the result of every
  \<^verbatim>\<open>enqueue\<close>: on well-formed queues, the orders for which the queue has a free slot are
  appended, the others are dropped. The lines it prints are the trades computed from the
  drained orders, whatever the state of the queues; no line and no value tells that an
  order was dropped.
\<close>

theorem reenqueue_drops_silently:
  assumes "0 \<le> tkr" "tkr < NUM_TICKERS"
    and "well_formed (buyQueues book tkr)" "below_limit (buyQueues book tkr)"
    and "well_formed (sellQueues book tkr)" "below_limit (sellQueues book tkr)"
    and "int (length buys) \<le> QUEUE_CAPACITY" "int (length sells) \<le> QUEUE_CAPACITY"
    and "buys = [] \<or> sells = [] \<or> castable (sells @ buys)"
    and "pass tkr buys sells = (rb, rs, out)"
  shows "\<exists>book'. matchOrders_publish book tkr buys sells = Some (book', out) \<and>
           only_trades tkr out \<and>
           pending (buyQueues book' tkr) =
             pending (buyQueues book tkr) @ take (free_slots (buyQueues book tkr)) rb \<and>
           pending (sellQueues book' tkr) =
             pending (sellQueues book tkr) @ take (free_slots (sellQueues book tkr)) rs"
proof -
  from assms(4,6,7,8) have
    "tailReservation (buyQueues book tkr) + int (length buys) \<le> INT_MAX"
    "tailReservation (sellQueues book tkr) + int (length sells) \<le> INT_MAX"
    by (simp_all add: below_limit_def)
  from matchOrders_publish_take [OF assms(1-3) this(1) assms(5) this(2) assms(9,10)]
    pass_only_trades [OF assms(10)]
  show ?thesis by blast
qed

theorem reenqueue_drops_silently_witness:
  "\<exists>book'. matchOrders_publish flooded_book 0
       [\<lparr>type = CHR ''B'', ticker = 0, quantity = 1, price = 10\<rparr>] [] = Some (book', []) \<and>
     pending (buyQueues book' 0) =
       replicate 128 \<lparr>type = CHR ''B'', ticker = 0, quantity = 5, price = 20\<rparr> \<and>
     pending (sellQueues book' 0) = pending (sellQueues flooded_book 0)"
proof -
  let ?lost = "\<lparr>type = CHR ''B'', ticker = 0, quantity = 1, price = 10\<rparr>"
  have h: "(0::int) \<le> 0" "(0::int) < NUM_TICKERS"
    "below_limit (buyQueues flooded_book 0)" "below_limit (sellQueues flooded_book 0)"
    "int (length [?lost]) \<le> QUEUE_CAPACITY" "int (length ([]::Order list)) \<le> QUEUE_CAPACITY"
    "[?lost] = [] \<or> ([]::Order list) = [] \<or> castable ([] @ [?lost])"
    "pass 0 [?lost] [] = ([?lost], [], [])"
    using flooded_book_queues(6)
    by (simp_all add: NUM_TICKERS_def INT_MAX_def QUEUE_CAPACITY_def below_limit_def
        flooded_book_queues(7) pass_def)
  from reenqueue_drops_silently [OF h(1,2) flooded_book_queues(3) h(3) flooded_book_queues(4) h(4-8)]
  show ?thesis
    by (auto simp: flooded_book_queues(5,8))
qed

text \<open>
  C7 as the specification states it fails on this schedule. The buy queue of ticker 0
  holds one accepted order (quantity 1, price 10). The matcher drains it; a producer then
  submits 128 buy orders for ticker 0; the matcher's \<^verbatim>\<open>enqueue\<close> of the drained order finds
  the queue full. The pass prints nothing, as a pass without the producer does, and the
  accepted order is in no queue afterwards: the buy queue holds the producer's 128 orders.
\<close>

theorem lost_order_unreported:
  "buy_orders 0 lost_order_book = [\<lparr>type = CHR ''B'', ticker = 0, quantity = 1, price = 10\<rparr>] \<and>
   map_option (snd \<circ> snd) (matchOrders_interleaved lost_order_book 0 flood) = Some [] \<and>
   map_option (buy_orders 0 \<circ> fst) (matchOrders_interleaved lost_order_book 0 flood) =
     Some (replicate 128 \<lparr>type = CHR ''B'', ticker = 0, quantity = 5, price = 20\<rparr>) \<and>
   map_option snd (matchOrders lost_order_book 0) = Some []"
proof -
  let ?lost = "\<lparr>type = CHR ''B'', ticker = 0, quantity = 1, price = 10\<rparr>"
  have t: "(0::int) \<le> 0" "(0::int) < NUM_TICKERS" by (simp_all add: NUM_TICKERS_def)
  have h: "tailReservation (buyQueues flooded_book 0) + int (length [?lost]) \<le> INT_MAX"
    "tailReservation (sellQueues flooded_book 0) + int (length ([]::Order list)) \<le> INT_MAX"
    "[?lost] = [] \<or> ([]::Order list) = [] \<or> castable ([] @ [?lost])"
    "pass 0 [?lost] [] = ([?lost], [], [])"
    using flooded_book_queues(6)
    by (simp_all add: INT_MAX_def flooded_book_queues(7) pass_def)
  from matchOrders_publish_take [OF t flooded_book_queues(3) h(1) flooded_book_queues(4) h(2-4)]
  obtain book3 where
    p: "matchOrders_publish flooded_book 0 [?lost] [] = Some (book3, [])"
      "pending (buyQueues book3 0) =
         replicate 128 \<lparr>type = CHR ''B'', ticker = 0, quantity = 5, price = 20\<rparr>"
    by (auto simp: flooded_book_queues(5,8))
  from flooded_book_queues(2) obtain ms where
    a: "addOrders drained_book flood = Some (flooded_book, ms)"
    by blast
  have i: "matchOrders_interleaved lost_order_book 0 flood = Some (book3, ms, [])"
    by (simp add: matchOrders_interleaved_def flooded_book_queues(1) a p)
  have "pending (buyQueues lost_order_book 0) = [] \<or> pending (sellQueues lost_order_book 0) = [] \<or>
      castable (pending (sellQueues lost_order_book 0) @ pending (buyQueues lost_order_book 0))"
    "pass 0 (pending (buyQueues lost_order_book 0)) (pending (sellQueues lost_order_book 0)) =
      (pending (buyQueues lost_order_book 0), pending (sellQueues lost_order_book 0), [])"
    by (simp_all add: lost_order_book_queues pass_def)
  from matchOrders_pass [OF t lost_order_book_queues(1-4) this] obtain book' where
    "matchOrders lost_order_book 0 = Some (book', [])"
    by blast
  with i p show ?thesis
    by (simp add: buy_orders_def lost_order_book_queues)
qed

text \<open>
  C8. The counters of every queue satisfy \<open>head \<le> tail \<le> tailReservation \<le> head + capacity\<close>:
  after \<^verbatim>\<open>initQueue\<close> with a capacity that is not negative (the three counters are zero),
  in every queue of the book after \<^verbatim>\<open>initOrderBook\<close>, after every \<^verbatim>\<open>enqueue\<close>, between the
  reservation and the publication of an \<^verbatim>\<open>enqueue\<close>, and after every \<^verbatim>\<open>dequeue\<close>. Both calls
  return on a well-formed queue whose counters are below \<^verbatim>\<open>INT_MAX\<close>. When producers and the
  consumer run at the same time, the counters satisfy it after every access of the queue
  by any of the threads, in every interleaving of their accesses.
\<close>

theorem counters_invariant:
  "(0 \<le> cap \<longrightarrow>
      queue_inv (initQueue q0 cap) \<and> head (initQueue q0 cap) = 0 \<and> tail (initQueue q0 cap) = 0 \<and>
      tailReservation (initQueue q0 cap) = 0) \<and>
   (0 \<le> t \<and> t < NUM_TICKERS \<longrightarrow>
      queue_inv (buyQueues (initOrderBook book) t) \<and> queue_inv (sellQueues (initOrderBook book) t)) \<and>
   (queue_inv q \<and> enqueue q ord = Some (q1, ok) \<longrightarrow> queue_inv q1) \<and>
   (queue_inv q \<and> reserve q = Some (q2, r) \<longrightarrow> queue_inv q2) \<and>
   (queue_inv q \<and> dequeue q = Some (q3, d) \<longrightarrow> queue_inv q3) \<and>
   (well_formed q \<and> tailReservation q < INT_MAX \<longrightarrow> enqueue q ord \<noteq> None) \<and>
   (well_formed q \<longrightarrow> dequeue q \<noteq> None) \<and>
   (queue_inv q4 \<and> reachable q4 s \<longrightarrow> queue_inv (queue s))"
proof (intro conjI impI)
  assume "0 \<le> cap"
  then show "queue_inv (initQueue q0 cap)" by (simp add: queue_inv_def initQueue_def)
next
  show "head (initQueue q0 cap) = 0" "tail (initQueue q0 cap) = 0"
    "tailReservation (initQueue q0 cap) = 0"
    by (simp_all add: initQueue_def)
next
  assume "0 \<le> t \<and> t < NUM_TICKERS"
  then show "queue_inv (buyQueues (initOrderBook book) t)"
    "queue_inv (sellQueues (initOrderBook book) t)"
    by (simp_all add: initOrderBook_def initOrderBook_loop_queues queue_inv_def initQueue_def
        QUEUE_CAPACITY_def)
next
  assume "queue_inv q \<and> enqueue q ord = Some (q1, ok)"
  then show "queue_inv q1"
    using enqueue_cases [of q ord q1 ok] by (auto simp: queue_inv_def)
next
  assume "queue_inv q \<and> reserve q = Some (q2, r)"
  then show "queue_inv q2"
    using reserve_cases [of q q2 r] by (auto simp: queue_inv_def)
next
  assume "queue_inv q \<and> dequeue q = Some (q3, d)"
  then show "queue_inv q3"
    using dequeue_cases [of q q3 d] by (auto simp: queue_inv_def)
next
  assume "well_formed q \<and> tailReservation q < INT_MAX"
  then show "enqueue q ord \<noteq> None" by (simp add: enqueue_returns)
next
  assume "well_formed q"
  then show "dequeue q \<noteq> None" by (rule dequeue_returns)
next
  assume "queue_inv q4 \<and> reachable q4 s"
  then have "system_inv s" using reachable_inv [of q4 s] by blast
  then show "queue_inv (queue s)" by (rule system_invD(1))
qed

theorem counters_invariant_witness:
  "queue_inv (initQueue zero_Queue 128) \<and>
   queue_inv (buyQueues (initOrderBook static_book) 0) \<and>
   queue_inv one_order_Queue \<and>
   queue_inv (fresh_Queue\<lparr>tailReservation := 1\<rparr>) \<and>
   queue_inv (one_order_Queue\<lparr>head := 1\<rparr>) \<and>
   enqueue fresh_Queue sample_order \<noteq> None \<and>
   dequeue one_order_Queue \<noteq> None \<and>
   queue_inv (queue reserved_system)"
proof -
  have inv: "queue_inv fresh_Queue" "queue_inv one_order_Queue"
    using fresh_Queue_well_formed(1) one_order_Queue(4) by (simp_all add: well_formed_def)
  have top: "tailReservation fresh_Queue < INT_MAX" "(0::int) \<le> 128" "(0::int) < NUM_TICKERS"
    by (simp_all add: run_defs)
  show ?thesis
    using counters_invariant [of 128 zero_Queue 0 static_book fresh_Queue sample_order
        one_order_Queue True "fresh_Queue\<lparr>tailReservation := 1\<rparr>" "Some 0"
        "one_order_Queue\<lparr>head := 1\<rparr>" "Some sample_order" fresh_Queue reserved_system]
      counters_invariant [of 128 zero_Queue 0 static_book one_order_Queue sample_order
        one_order_Queue True "fresh_Queue\<lparr>tailReservation := 1\<rparr>" "Some 0"
        "one_order_Queue\<lparr>head := 1\<rparr>" "Some sample_order" fresh_Queue reserved_system]
      inv top one_order_Queue fresh_Queue_well_formed(1) reserved_system_reachable
    by blast
qed

text \<open>
  C9. A call of \<^verbatim>\<open>addOrder\<close> whose order type is neither \<^verbatim>\<open>'B'\<close> nor \<^verbatim>\<open>'S'\<close> changes no queue and
  prints the line of a full queue, \<^verbatim>\<open>Queue for ticker %d is full. Order dropped.\<close>, whatever
  the state of the queues.
\<close>

theorem unknown_type_reported_full:
  assumes "orderType \<noteq> CHR ''B''" "orderType \<noteq> CHR ''S''"
  shows "addOrder book orderType tkr qty prc = Some (book, Queue_Full tkr)"
  using assms by (simp add: addOrder_def)

theorem unknown_type_reported_full_witness:
  "addOrder fresh_book (CHR ''X'') 3 10 50 = Some (fresh_book, Queue_Full 3) \<and>
   pending (buyQueues fresh_book 3) = [] \<and> pending (sellQueues fresh_book 3) = []"
proof -
  have "CHR ''X'' \<noteq> CHR ''B''" "CHR ''X'' \<noteq> CHR ''S''" by simp_all
  from unknown_type_reported_full [OF this] show ?thesis
    by (simp add: fresh_book_queues fresh_Queue_well_formed NUM_TICKERS_def)
qed

text \<open>
  C10. A pass over well-formed queues of one ticker with orders on both sides (and prices
  that fit an \<^verbatim>\<open>int\<close>): the pass returns and prints trades only. An order whose price cast
  to \<^verbatim>\<open>int\<close> is outside 10 to 1000, or whose quantity is not positive, is in neither sorted
  array: the trades and the orders in the queues after the pass are those that the
  two-pointer loop computes from the other orders alone. So such an order is in no queue
  after the pass, and its quantity is in no trade: the quantity in the two queues after
  the pass plus twice the traded quantity is the quantity of the other orders before it.
\<close>

theorem unmatchable_orders_vanish:
  assumes "0 \<le> tkr" "tkr < NUM_TICKERS"
    and "well_formed (buyQueues book tkr)" "below_limit (buyQueues book tkr)"
    and "well_formed (sellQueues book tkr)" "below_limit (sellQueues book tkr)"
    and "pending (buyQueues book tkr) \<noteq> []" "pending (sellQueues book tkr) \<noteq> []"
    and "castable (pending (sellQueues book tkr) @ pending (buyQueues book tkr))"
  shows "\<exists>book' out. matchOrders book tkr = Some (book', out) \<and> only_trades tkr out \<and>
           (pending (buyQueues book' tkr), pending (sellQueues book' tkr), out) =
             (case two_pointer tkr 0 0
                     (sortedBuy_loop 1000 (filter matchable (pending (buyQueues book tkr))) [])
                     (sortedSell_loop 10 (filter matchable (pending (sellQueues book tkr))) []) []
              of (sortedBuy, sortedSell, out) \<Rightarrow>
                (filter (\<lambda>ord. quantity ord > 0) sortedBuy,
                 filter (\<lambda>ord. quantity ord > 0) sortedSell, out)) \<and>
           (\<forall>ord\<in>set (pending (buyQueues book' tkr)) \<union> set (pending (sellQueues book' tkr)).
              matchable ord) \<and>
           total_quantity (pending (buyQueues book' tkr)) +
           total_quantity (pending (sellQueues book' tkr)) + 2 * total_matched out =
           total_quantity (filter matchable (pending (buyQueues book tkr))) +
           total_quantity (filter matchable (pending (sellQueues book tkr)))"
proof -
  let ?buys = "pending (buyQueues book tkr)" and ?sells = "pending (sellQueues book tkr)"
  obtain rb rs out where pass: "pass tkr ?buys ?sells = (rb, rs, out)"
    by (metis prod_cases3)
  from assms(9) have "?buys = [] \<or> ?sells = [] \<or> castable (?sells @ ?buys)"
    by simp
  from matchOrders_pass [OF assms(1-6) this pass] obtain book' where
    run: "matchOrders book tkr = Some (book', out)" "pending (buyQueues book' tkr) = rb"
      "pending (sellQueues book' tkr) = rs"
    by blast
  have "(rb, rs, out) =
          (case two_pointer tkr 0 0 (sortedBuy_loop 1000 (filter matchable ?buys) [])
                  (sortedSell_loop 10 (filter matchable ?sells) []) []
           of (sortedBuy, sortedSell, out) \<Rightarrow>
             (filter (\<lambda>ord. quantity ord > 0) sortedBuy,
              filter (\<lambda>ord. quantity ord > 0) sortedSell, out))"
    using pass assms(7,8) by (simp add: pass_def sortedBuy_matchable sortedSell_matchable)
  with run pass_crossing [OF assms(7,8) pass] show ?thesis by simp
qed

theorem unmatchable_orders_vanish_witness:
  "\<exists>book'. matchOrders mixed_book 5 = Some (book', [Matched 5 15 95]) \<and>
     pending (buyQueues book' 5) = [\<lparr>type = CHR ''B'', ticker = 5, quantity = 5, price = 100\<rparr>] \<and>
     pending (sellQueues book' 5) = []"
proof -
  have h: "(0::int) \<le> 5" "(5::int) < NUM_TICKERS"
    "pending (buyQueues mixed_book 5) \<noteq> []" "pending (sellQueues mixed_book 5) \<noteq> []"
    "castable (pending (sellQueues mixed_book 5) @ pending (buyQueues mixed_book 5))"
    by (simp_all add: NUM_TICKERS_def mixed_book_queues castable_def to_int_def in_int_def
        INT_MIN_def INT_MAX_def)
  have e: "(case two_pointer 5 0 0
                  (sortedBuy_loop 1000 (filter matchable
                     [\<lparr>type = CHR ''B'', ticker = 5, quantity = 20, price = 100\<rparr>,
                      \<lparr>type = CHR ''B'', ticker = 5, quantity = 10, price = 5\<rparr>]) [])
                  (sortedSell_loop 10 (filter matchable
                     [\<lparr>type = CHR ''S'', ticker = 5, quantity = 15, price = 95\<rparr>,
                      \<lparr>type = CHR ''S'', ticker = 5, quantity = - 4, price = 95\<rparr>,
                      \<lparr>type = CHR ''S'', ticker = 5, quantity = 8, price = 2000\<rparr>]) []) []
           of (sortedBuy, sortedSell, out) \<Rightarrow>
             (filter (\<lambda>ord. quantity ord > 0) sortedBuy,
              filter (\<lambda>ord. quantity ord > 0) sortedSell, out)) =
          ([\<lparr>type = CHR ''B'', ticker = 5, quantity = 5, price = 100\<rparr>], [],
           [Matched 5 15 95])"
    by code_simp
  from unmatchable_orders_vanish [OF h(1,2) mixed_book_queues(1-4) h(3-5)] obtain book' out where
    "matchOrders mixed_book 5 = Some (book', out)"
    "(pending (buyQueues book' 5), pending (sellQueues book' 5), out) =
       (case two_pointer 5 0 0
               (sortedBuy_loop 1000 (filter matchable (pending (buyQueues mixed_book 5))) [])
               (sortedSell_loop 10 (filter matchable (pending (sellQueues mixed_book 5))) []) []
        of (sortedBuy, sortedSell, out) \<Rightarrow>
          (filter (\<lambda>ord. quantity ord > 0) sortedBuy,
           filter (\<lambda>ord. quantity ord > 0) sortedSell, out))"
    by blast
  then show ?thesis
    by (simp only: mixed_book_queues(5,6) e prod.inject) simp
qed

end
